theory Spec2Isabelle
  imports Main
begin

section \<open>The buffered-send arena of MPICH (bsendutil)\<close>

text \<open>
  A shallow embedding of the allocator that backs buffered sends: attach, detach,
  find, take, free-with-merge, the progress loop and the send driver.

  Block headers live in the user's buffer. The model keeps them in a typed heap, a
  total function from addresses to header records; address 0 is the C null pointer.
  Sizes and addresses are natural numbers; the C code computes them in \<open>size_t\<close>,
  and the two agree wherever no difference goes below zero, which the hypotheses of the
  theorems on block sizes state (\<open>size = total_size - header\<close> with the header
  no larger than the span).

  The struct declarations and the configuration constants are not part of the sources
  at hand. The fields used below are the ones the functions read and write; the
  constants are the fields of a \<open>platform\<close> record that every function takes.
\<close>

subsection \<open>Data\<close>

type_synonym addr = nat

record platform =
  sizeof_voidp :: nat
  sizeof_double :: nat
  BSENDDATA_HEADER_TRUE_SIZE :: nat
  MAX_ALIGNMENT :: nat
  MPI_BSEND_OVERHEAD :: nat
  HAVE_ERROR_CHECKING :: bool

text \<open>\<open>MPII_Bsend_data_t\<close>: the header at the start of every block. \<open>msg_msgbuf\<close> and
  \<open>msg_count\<close> are the fields \<open>msg.msgbuf\<close> and \<open>msg.count\<close>.\<close>

record MPII_Bsend_data_t =
  size_b :: nat
  total_size :: nat
  next_b :: addr
  prev_b :: addr
  request :: addr
  msg_msgbuf :: addr
  msg_count :: nat

type_synonym heap = "addr \<Rightarrow> MPII_Bsend_data_t"

record MPII_BsendBuffer =
  buffer :: addr
  buffer_size :: nat
  origbuffer :: addr
  origbuffer_size :: nat
  avail :: addr
  active :: addr

text \<open>What \<open>MPL_calloc\<close> returns: a record of zeros.\<close>

definition calloc_BsendBuffer :: MPII_BsendBuffer where
  "calloc_BsendBuffer =
     \<lparr>buffer = 0, buffer_size = 0, origbuffer = 0, origbuffer_size = 0, avail = 0, active = 0\<rparr>"

text \<open>Error codes as the calls to \<open>MPIR_Err_create_code\<close> build them: the class
  \<open>MPI_ERR_BUFFER\<close> with its message key and arguments; an error code of a
  collaborator passed on by \<open>MPIR_ERR_CHECK\<close>; and the internal error that wraps a
  failed send initiation.\<close>

datatype mpi_error =
  MPI_ERR_BUFFER string "nat list"
  | Passed_on int
  | MPI_ERR_INTERN int

definition BUFFER_ALREADY_ATTACHED :: mpi_error where
  "BUFFER_ALREADY_ATTACHED = MPI_ERR_BUFFER ''**bufexists'' []"

definition BUFFER_TOO_SMALL :: "platform \<Rightarrow> nat \<Rightarrow> mpi_error" where
  "BUFFER_TOO_SMALL pf n = MPI_ERR_BUFFER ''**bsendbufsmall'' [n, MPI_BSEND_OVERHEAD pf]"



datatype MPI_Datatype = MPI_PACKED | Other_type nat

text \<open>The collaborators: the send engine, the progress engine, the packing facility and
  the request objects. Their state is a world \<open>'w\<close>; each call takes the world and
  returns the new one, with the error code where the C function returns one.\<close>

record 'w engine =
  MPID_Wait :: "addr \<Rightarrow> 'w \<Rightarrow> int \<times> 'w"
  MPIR_Request_free :: "addr \<Rightarrow> 'w \<Rightarrow> 'w"
  MPIR_Request_add_ref :: "addr \<Rightarrow> 'w \<Rightarrow> 'w"
  MPIR_Request_is_complete :: "'w \<Rightarrow> addr \<Rightarrow> bool"
  MPIR_Request_is_persistent :: "'w \<Rightarrow> addr \<Rightarrow> bool"
  MPID_Progress_test :: "'w \<Rightarrow> int \<times> 'w"
  MPIR_Pack_size :: "nat \<Rightarrow> MPI_Datatype \<Rightarrow> nat"
  MPIR_Typerep_pack :: "nat \<Rightarrow> MPI_Datatype \<Rightarrow> addr \<Rightarrow> nat \<Rightarrow> 'w \<Rightarrow> (int \<times> nat) \<times> 'w"
  MPID_Isend :: "addr \<Rightarrow> nat \<Rightarrow> int \<Rightarrow> int \<Rightarrow> 'w \<Rightarrow> (int \<times> addr) \<times> 'w"

text \<open>Assignments to one field of the header at an address.\<close>

definition set_size :: "heap \<Rightarrow> addr \<Rightarrow> nat \<Rightarrow> heap" where
  "set_size h a v = h(a := (h a)\<lparr>size_b := v\<rparr>)"

definition set_total_size :: "heap \<Rightarrow> addr \<Rightarrow> nat \<Rightarrow> heap" where
  "set_total_size h a v = h(a := (h a)\<lparr>total_size := v\<rparr>)"

definition set_next :: "heap \<Rightarrow> addr \<Rightarrow> addr \<Rightarrow> heap" where
  "set_next h a v = h(a := (h a)\<lparr>next_b := v\<rparr>)"

definition set_prev :: "heap \<Rightarrow> addr \<Rightarrow> addr \<Rightarrow> heap" where
  "set_prev h a v = h(a := (h a)\<lparr>prev_b := v\<rparr>)"

definition set_request :: "heap \<Rightarrow> addr \<Rightarrow> addr \<Rightarrow> heap" where
  "set_request h a v = h(a := (h a)\<lparr>request := v\<rparr>)"

definition set_msgbuf :: "heap \<Rightarrow> addr \<Rightarrow> addr \<Rightarrow> heap" where
  "set_msgbuf h a v = h(a := (h a)\<lparr>msg_msgbuf := v\<rparr>)"

definition set_count :: "heap \<Rightarrow> addr \<Rightarrow> nat \<Rightarrow> heap" where
  "set_count h a v = h(a := (h a)\<lparr>msg_count := v\<rparr>)"

subsection \<open>Attach\<close>

text \<open>\<open>MPIR_Bsend_attach\<close>. The slot is the pointer \<open>*bsendbuffer_p\<close>: \<open>None\<close> is
  null. The record is allocated before the checks, so it stays allocated when a check
  fails. The first block is written with the parameter \<open>buffer_size\<close>, which the
  alignment step does not change: only the field of the arena record is reduced.\<close>

definition MPIR_Bsend_attach ::
  "platform \<Rightarrow> MPII_BsendBuffer option \<Rightarrow> heap \<Rightarrow> addr \<Rightarrow> nat \<Rightarrow>
     (mpi_error + unit) \<times> MPII_BsendBuffer option \<times> heap" where
  "MPIR_Bsend_attach pf slot h buffer_arg buffer_size_arg =
     (let bsendbuffer = (case slot of None \<Rightarrow> calloc_BsendBuffer | Some b \<Rightarrow> b) in
      if HAVE_ERROR_CHECKING pf \<and> buffer bsendbuffer \<noteq> 0
      then (Inl BUFFER_ALREADY_ATTACHED, Some bsendbuffer, h)
      else if HAVE_ERROR_CHECKING pf \<and> buffer_size_arg < MPI_BSEND_OVERHEAD pf
      then (Inl (BUFFER_TOO_SMALL pf buffer_size_arg), Some bsendbuffer, h)
      else
        let b1 = bsendbuffer\<lparr>origbuffer := buffer_arg, origbuffer_size := buffer_size_arg,
                   buffer := buffer_arg, buffer_size := buffer_size_arg\<rparr>;
            align_sz = max (sizeof_voidp pf) (sizeof_double pf);
            offset = buffer_arg mod align_sz;
            buffer' = (if offset \<noteq> 0 then buffer_arg + (align_sz - offset) else buffer_arg);
            b2 = (if offset \<noteq> 0
                  then b1\<lparr>buffer := buffer', buffer_size := buffer_size b1 - (align_sz - offset)\<rparr>
                  else b1);
            b3 = b2\<lparr>avail := buffer', active := 0\<rparr>;
            p = buffer';
            h1 = set_size h p (buffer_size_arg - BSENDDATA_HEADER_TRUE_SIZE pf);
            h2 = set_total_size h1 p buffer_size_arg;
            h3 = set_prev (set_next h2 p 0) p 0;
            h4 = set_msgbuf h3 p (p + BSENDDATA_HEADER_TRUE_SIZE pf)
        in (Inr (), Some b3, h4))"

subsection \<open>Detach\<close>

text \<open>The drain loop of \<open>MPIR_Bsend_detach\<close>: wait on the request of each active
  block, stop at the first error, release the request, go to the next block. The links
  are read and never written.\<close>

partial_function (option) detach_drain ::
  "'w engine \<Rightarrow> heap \<Rightarrow> addr \<Rightarrow> 'w \<Rightarrow> (int \<times> 'w) option" where
  "detach_drain eng h p w =
     (if p = 0 then Some (0, w)
      else
        (case MPID_Wait eng (request (h p)) w of
           (mpi_errno, w1) \<Rightarrow>
             if mpi_errno \<noteq> 0 then Some (mpi_errno, w1)
             else detach_drain eng h (next_b (h p)) (MPIR_Request_free eng (request (h p)) w1)))"

text \<open>\<open>MPIR_Bsend_detach\<close>: the result is the pair written to \<open>*bufferp\<close> and
  \<open>*size\<close>; on the error path neither is written and the arena record is left as it
  was.\<close>

definition MPIR_Bsend_detach ::
  "'w engine \<Rightarrow> MPII_BsendBuffer option \<Rightarrow> heap \<Rightarrow> 'w \<Rightarrow>
     ((mpi_error + addr \<times> nat) \<times> MPII_BsendBuffer option \<times> 'w) option" where
  "MPIR_Bsend_detach eng slot h w =
     (case slot of
        None \<Rightarrow> Some (Inr (0, 0), None, w)
      | Some bsendbuffer \<Rightarrow>
          (case (if active bsendbuffer \<noteq> 0 then detach_drain eng h (active bsendbuffer) w
                 else Some (0, w)) of
             None \<Rightarrow> None
           | Some (mpi_errno, w1) \<Rightarrow>
               if mpi_errno \<noteq> 0 then Some (Inl (Passed_on mpi_errno), Some bsendbuffer, w1)
               else Some (Inr (origbuffer bsendbuffer, origbuffer_size bsendbuffer),
                          Some (bsendbuffer\<lparr>origbuffer := 0, origbuffer_size := 0, buffer := 0,
                                  buffer_size := 0, avail := 0, active := 0\<rparr>),
                          w1)))"

subsection \<open>Free with merge\<close>

text \<open>The walk of \<open>MPIR_Bsend_free_segment\<close> over the avail list: it stops at the
  first block whose address is greater than \<open>p\<close> and returns \<open>avail_prev\<close> and
  \<open>avail\<close>.\<close>

partial_function (option) free_segment_walk ::
  "heap \<Rightarrow> addr \<Rightarrow> addr \<Rightarrow> addr \<Rightarrow> (addr \<times> addr) option" where
  "free_segment_walk h p avail_prev avail_cur =
     (if avail_cur = 0 then Some (avail_prev, avail_cur)
      else if avail_cur > p then Some (avail_prev, avail_cur)
      else free_segment_walk h p avail_cur (next_b (h avail_cur)))"

text \<open>Removing \<open>p\<close> from the active list, the first part of
  \<open>MPIR_Bsend_free_segment\<close>. \<open>prev\<close> is read once, before any write.\<close>

definition free_segment_unlink ::
  "MPII_BsendBuffer \<Rightarrow> heap \<Rightarrow> addr \<Rightarrow> MPII_BsendBuffer \<times> heap" where
  "free_segment_unlink bsendbuffer h p =
     (let prev = prev_b (h p);
          bh = (if prev \<noteq> 0 then (bsendbuffer, set_next h prev (next_b (h p)))
                else (bsendbuffer\<lparr>active := next_b (h p)\<rparr>, h));
          b1 = fst bh;
          h1 = snd bh;
          h2 = (if next_b (h1 p) \<noteq> 0 then set_prev h1 (next_b (h1 p)) prev else h1)
      in (b1, h2))"

text \<open>Merging \<open>p\<close> with the next block, or linking it in front of it.\<close>

definition free_segment_merge_next :: "platform \<Rightarrow> heap \<Rightarrow> addr \<Rightarrow> addr \<Rightarrow> heap" where
  "free_segment_merge_next pf h p avail_cur =
     (if avail_cur \<noteq> 0 then
        (if p + total_size (h p) = avail_cur then
           (let h1 = set_total_size h p (total_size (h p) + total_size (h avail_cur));
                h2 = set_size h1 p (total_size (h1 p) - BSENDDATA_HEADER_TRUE_SIZE pf);
                h3 = set_next h2 p (next_b (h2 avail_cur))
            in if next_b (h3 avail_cur) \<noteq> 0 then set_prev h3 (next_b (h3 avail_cur)) p else h3)
         else
           (let h1 = set_next h p avail_cur in set_prev h1 avail_cur p))
      else set_next h p 0)"

text \<open>Merging \<open>p\<close> into the previous block, or linking it behind it, or making it the
  head of the avail list.\<close>

definition free_segment_merge_prev ::
  "platform \<Rightarrow> MPII_BsendBuffer \<Rightarrow> heap \<Rightarrow> addr \<Rightarrow> addr \<Rightarrow> MPII_BsendBuffer \<times> heap" where
  "free_segment_merge_prev pf bsendbuffer h p avail_prev =
     (if avail_prev \<noteq> 0 then
        (if avail_prev + total_size (h avail_prev) = p then
           (let h1 = set_total_size h avail_prev (total_size (h avail_prev) + total_size (h p));
                h2 = set_size h1 avail_prev
                       (total_size (h1 avail_prev) - BSENDDATA_HEADER_TRUE_SIZE pf);
                h3 = set_next h2 avail_prev (next_b (h2 p))
            in (bsendbuffer,
                if next_b (h3 p) \<noteq> 0 then set_prev h3 (next_b (h3 p)) avail_prev else h3))
         else
           (let h1 = set_next h avail_prev p in (bsendbuffer, set_prev h1 p avail_prev)))
      else (bsendbuffer\<lparr>avail := p\<rparr>, set_prev h p 0))"

text \<open>\<open>MPIR_Bsend_free_segment\<close>. The head of the avail list is read at entry.\<close>

definition MPIR_Bsend_free_segment ::
  "platform \<Rightarrow> MPII_BsendBuffer \<Rightarrow> heap \<Rightarrow> addr \<Rightarrow> (MPII_BsendBuffer \<times> heap) option" where
  "MPIR_Bsend_free_segment pf bsendbuffer h p =
     (case free_segment_unlink bsendbuffer h p of
        (b1, h1) \<Rightarrow>
          (case free_segment_walk h1 p 0 (avail bsendbuffer) of
             None \<Rightarrow> None
           | Some (avail_prev, avail_cur) \<Rightarrow>
               Some (free_segment_merge_prev pf b1
                       (free_segment_merge_next pf h1 p avail_cur) p avail_prev)))"

subsection \<open>Progress and reclaim\<close>

text \<open>The loop of \<open>MPIR_Bsend_progress\<close>: the next active block is read before the
  current one is freed.\<close>

partial_function (option) progress_loop ::
  "platform \<Rightarrow> 'w engine \<Rightarrow> MPII_BsendBuffer \<Rightarrow> heap \<Rightarrow> 'w \<Rightarrow> addr \<Rightarrow>
     (MPII_BsendBuffer \<times> heap \<times> 'w) option" where
  "progress_loop pf eng bsendbuffer h w active_cur =
     (if active_cur = 0 then Some (bsendbuffer, h, w)
      else
        if MPIR_Request_is_complete eng w (request (h active_cur)) then
          (case MPIR_Bsend_free_segment pf bsendbuffer h active_cur of
             None \<Rightarrow> None
           | Some (b1, h1) \<Rightarrow>
               progress_loop pf eng b1 h1
                 (if \<not> MPIR_Request_is_persistent eng w (request (h active_cur))
                  then MPIR_Request_free eng (request (h active_cur)) w else w)
                 (next_b (h active_cur)))
        else progress_loop pf eng bsendbuffer h w (next_b (h active_cur)))"

definition MPIR_Bsend_progress ::
  "platform \<Rightarrow> 'w engine \<Rightarrow> MPII_BsendBuffer \<Rightarrow> heap \<Rightarrow> 'w \<Rightarrow>
     (MPII_BsendBuffer \<times> heap \<times> 'w) option" where
  "MPIR_Bsend_progress pf eng bsendbuffer h w =
     progress_loop pf eng bsendbuffer h w (active bsendbuffer)"

text \<open>\<open>MPIR_Bsend_check_active\<close>: nothing happens when the active list is empty; an
  error of the progress test is returned before any block is reclaimed.\<close>

definition MPIR_Bsend_check_active ::
  "platform \<Rightarrow> 'w engine \<Rightarrow> MPII_BsendBuffer \<Rightarrow> heap \<Rightarrow> 'w \<Rightarrow>
     (int \<times> MPII_BsendBuffer \<times> heap \<times> 'w) option" where
  "MPIR_Bsend_check_active pf eng bsendbuffer h w =
     (if active bsendbuffer \<noteq> 0 then
        (case MPID_Progress_test eng w of
           (mpi_errno, w1) \<Rightarrow>
             if mpi_errno \<noteq> 0 then Some (mpi_errno, bsendbuffer, h, w1)
             else
               (case MPIR_Bsend_progress pf eng bsendbuffer h w1 of
                  None \<Rightarrow> None
                | Some (b1, h1, w2) \<Rightarrow> Some (0, b1, h1, w2)))
      else Some (0, bsendbuffer, h, w))"

subsection \<open>Find and take\<close>

partial_function (option) find_buffer_walk :: "heap \<Rightarrow> addr \<Rightarrow> nat \<Rightarrow> addr option" where
  "find_buffer_walk h p n =
     (if p = 0 then Some 0
      else if size_b (h p) \<ge> n then Some p
      else find_buffer_walk h (next_b (h p)) n)"


definition MIN_BUFFER_BLOCK :: nat where
  "MIN_BUFFER_BLOCK = 8"

unbundle bit_operations_syntax

text \<open>The rounding of \<open>MPIR_Bsend_take_buffer\<close>, with the mask as the code writes it.\<close>

definition take_alloc_size :: "platform \<Rightarrow> nat \<Rightarrow> nat" where
  "take_alloc_size pf n =
     (if n AND (MAX_ALIGNMENT pf - 1) \<noteq> 0
      then n + (MAX_ALIGNMENT pf - (n AND (MAX_ALIGNMENT pf - 1)))
      else n)"

text \<open>The split of \<open>MPIR_Bsend_take_buffer\<close>: the new block behind the allocated part,
  linked after \<open>p\<close> in the avail list.\<close>

definition take_buffer_split :: "platform \<Rightarrow> heap \<Rightarrow> addr \<Rightarrow> nat \<Rightarrow> heap" where
  "take_buffer_split pf h p alloc_size =
     (let newp = p + BSENDDATA_HEADER_TRUE_SIZE pf + alloc_size;
          h1 = set_total_size h newp
                 (total_size (h p) - alloc_size - BSENDDATA_HEADER_TRUE_SIZE pf);
          h2 = set_size h1 newp (total_size (h1 newp) - BSENDDATA_HEADER_TRUE_SIZE pf);
          h3 = set_msgbuf h2 newp (newp + BSENDDATA_HEADER_TRUE_SIZE pf);
          h4 = set_next h3 newp (next_b (h3 p));
          h5 = set_prev h4 newp p;
          h6 = (if next_b (h5 p) \<noteq> 0 then set_prev h5 (next_b (h5 p)) newp else h5);
          h7 = set_next h6 p newp;
          h8 = set_total_size h7 p (newp - p)
      in set_size h8 p (total_size (h8 p) - BSENDDATA_HEADER_TRUE_SIZE pf))"

text \<open>The second half of \<open>MPIR_Bsend_take_buffer\<close>: \<open>p\<close> leaves the avail list and
  becomes the head of the active list.\<close>

definition take_buffer_move ::
  "MPII_BsendBuffer \<Rightarrow> heap \<Rightarrow> addr \<Rightarrow> MPII_BsendBuffer \<times> heap" where
  "take_buffer_move bsendbuffer h p =
     (let prev = prev_b (h p);
          bh = (if prev \<noteq> 0 then (bsendbuffer, set_next h prev (next_b (h p)))
                else (bsendbuffer\<lparr>avail := next_b (h p)\<rparr>, h));
          b1 = fst bh;
          h1 = snd bh;
          h2 = (if next_b (h1 p) \<noteq> 0 then set_prev h1 (next_b (h1 p)) (prev_b (h1 p)) else h1);
          h3 = (if active b1 \<noteq> 0 then set_prev h2 (active b1) p else h2);
          h4 = set_next h3 p (active b1);
          h5 = set_prev h4 p 0
      in (b1\<lparr>active := p\<rparr>, h5))"

definition MPIR_Bsend_take_buffer ::
  "platform \<Rightarrow> MPII_BsendBuffer \<Rightarrow> heap \<Rightarrow> addr \<Rightarrow> nat \<Rightarrow> MPII_BsendBuffer \<times> heap" where
  "MPIR_Bsend_take_buffer pf bsendbuffer h p n =
     (let alloc_size = take_alloc_size pf n;
          h1 = (if alloc_size + BSENDDATA_HEADER_TRUE_SIZE pf + MIN_BUFFER_BLOCK \<le> size_b (h p)
                then take_buffer_split pf h p alloc_size else h)
      in take_buffer_move bsendbuffer h1 p)"

subsection \<open>The send driver\<close>

record MPIR_Session =
  session_bsendbuffer :: "MPII_BsendBuffer option"

record MPIR_Comm =
  comm_bsendbuffer :: "MPII_BsendBuffer option"
  session_ptr :: "MPIR_Session option"




text \<open>The arguments of \<open>MPIR_Bsend_isend\<close> but the communicator. \<open>request_p\<close> says
  whether the pointer \<open>request\<close> is not null. The payload bytes are not modelled.\<close>

record isend_args =
  count :: nat
  dtype :: MPI_Datatype
  dest :: int
  tag :: int
  request_p :: bool








subsection \<open>Finalize\<close>

text \<open>\<open>MPIR_Bsend_finalize\<close>: a slot that still holds a region is detached, the result
  of the detach is dropped, and the slot becomes null.\<close>

definition MPIR_Bsend_finalize ::
  "'w engine \<Rightarrow> MPII_BsendBuffer option \<Rightarrow> heap \<Rightarrow> 'w \<Rightarrow> (MPII_BsendBuffer option \<times> 'w) option" where
  "MPIR_Bsend_finalize eng slot h w =
     (case slot of
        None \<Rightarrow> Some (None, w)
      | Some bsendbuffer \<Rightarrow>
          if buffer bsendbuffer \<noteq> 0 then
            (case MPIR_Bsend_detach eng slot h w of
               None \<Rightarrow> None
             | Some (res, slot1, w1) \<Rightarrow> Some (None, w1))
          else Some (None, w))"

subsection \<open>Well-formed lists\<close>

text \<open>The four fields of the headers that make the lists, each as a function of the
  address: a write to one field leaves the other three functions as they are.\<close>

definition nexts :: "heap \<Rightarrow> addr \<Rightarrow> addr" where
  "nexts h = (\<lambda>x. next_b (h x))"

definition prevs :: "heap \<Rightarrow> addr \<Rightarrow> addr" where
  "prevs h = (\<lambda>x. prev_b (h x))"

definition spans :: "heap \<Rightarrow> addr \<Rightarrow> nat" where
  "spans h = (\<lambda>x. total_size (h x))"

definition sizes :: "heap \<Rightarrow> addr \<Rightarrow> nat" where
  "sizes h = (\<lambda>x. size_b (h x))"

text \<open>\<open>path nx a xs z\<close>: following \<open>next\<close> from \<open>a\<close> visits the blocks \<open>xs\<close> in order
  and arrives at \<open>z\<close>; no block of \<open>xs\<close> is null. \<open>backlinks pv prv xs\<close>: the \<open>prev\<close> of
  each block of \<open>xs\<close> is the block before it, \<open>prv\<close> for the first. A list of the arena
  is a path from its head to null whose first block has a null \<open>prev\<close>.\<close>

fun path :: "(addr \<Rightarrow> addr) \<Rightarrow> addr \<Rightarrow> addr list \<Rightarrow> addr \<Rightarrow> bool" where
  "path nx a [] z = (a = z)"
| "path nx a (x # xs) z = (a = x \<and> x \<noteq> 0 \<and> path nx (nx x) xs z)"

fun backlinks :: "(addr \<Rightarrow> addr) \<Rightarrow> addr \<Rightarrow> addr list \<Rightarrow> bool" where
  "backlinks pv prv [] = True"
| "backlinks pv prv (x # xs) = (pv x = prv \<and> backlinks pv x xs)"

definition dlist :: "heap \<Rightarrow> addr \<Rightarrow> addr list \<Rightarrow> bool" where
  "dlist h a xs = (path (nexts h) a xs 0 \<and> backlinks (prevs h) 0 xs)"

text \<open>The head of a list of addresses and its last block, null for the empty list.\<close>

definition head0 :: "addr list \<Rightarrow> addr" where
  "head0 xs = (case xs of [] \<Rightarrow> 0 | x # _ \<Rightarrow> x)"

definition last0 :: "addr list \<Rightarrow> addr" where
  "last0 xs = last (0 # xs)"

text \<open>The free list after \<open>p\<close> is released, in the words of the specification. The blocks
  up to the address \<open>p\<close> are to its left, the others to its right; \<open>p\<close> absorbs its
  right neighbour when it ends where the neighbour begins, and is absorbed by its left
  neighbour when the neighbour ends where \<open>p\<close> begins; else it is put between the
  two.\<close>

definition left_of :: "addr \<Rightarrow> addr list \<Rightarrow> addr list" where
  "left_of p fs = takeWhile (\<lambda>x. x \<le> p) fs"

definition right_of :: "addr \<Rightarrow> addr list \<Rightarrow> addr list" where
  "right_of p fs = dropWhile (\<lambda>x. x \<le> p) fs"

definition merges_right :: "heap \<Rightarrow> addr \<Rightarrow> addr list \<Rightarrow> bool" where
  "merges_right h p fs \<longleftrightarrow> right_of p fs \<noteq> [] \<and> p + spans h p = hd (right_of p fs)"

definition merges_left :: "heap \<Rightarrow> addr \<Rightarrow> addr list \<Rightarrow> bool" where
  "merges_left h p fs \<longleftrightarrow>
     left_of p fs \<noteq> [] \<and> last (left_of p fs) + spans h (last (left_of p fs)) = p"

definition free_list_after :: "heap \<Rightarrow> addr \<Rightarrow> addr list \<Rightarrow> addr list" where
  "free_list_after h p fs =
     left_of p fs @ (if merges_left h p fs then [] else [p])
       @ (if merges_right h p fs then tl (right_of p fs) else right_of p fs)"

text \<open>The span of \<open>p\<close> after the merge with its right neighbour, if there is one.\<close>

definition span_after :: "heap \<Rightarrow> addr \<Rightarrow> addr list \<Rightarrow> nat" where
  "span_after h p fs =
     spans h p + (if merges_right h p fs then spans h (hd (right_of p fs)) else 0)"

text \<open>No block of the list ends where the next block of the list begins.\<close>

fun no_adjacent :: "(addr \<Rightarrow> nat) \<Rightarrow> addr list \<Rightarrow> bool" where
  "no_adjacent t (x # y # ys) = (x + t x \<noteq> y \<and> no_adjacent t (y # ys))"
| "no_adjacent t [x] = True"
| "no_adjacent t [] = True"



text \<open>Waiting on a list of requests in order, releasing each after its wait, up to the
  first wait that reports an error.\<close>

fun wait_each :: "'w engine \<Rightarrow> addr list \<Rightarrow> 'w \<Rightarrow> int \<times> 'w" where
  "wait_each eng [] w = (0, w)"
| "wait_each eng (r # rs) w =
     (case MPID_Wait eng r w of
        (mpi_errno, w1) \<Rightarrow>
          if mpi_errno \<noteq> 0 then (mpi_errno, w1)
          else wait_each eng rs (MPIR_Request_free eng r w1))"

subsection \<open>A platform and an engine to run the code on\<close>

text \<open>The constants of the scenarios: a header of 64 bytes, an alignment of 16, pointers
  and doubles of 8 bytes, an overhead of the header and the smallest payload.\<close>

definition scenario_platform :: platform where
  "scenario_platform =
     \<lparr>sizeof_voidp = 8, sizeof_double = 8, BSENDDATA_HEADER_TRUE_SIZE = 64,
      MAX_ALIGNMENT = 16, MPI_BSEND_OVERHEAD = 72, HAVE_ERROR_CHECKING = True\<rparr>"

definition heap0 :: heap where
  "heap0 = (\<lambda>a. \<lparr>size_b = 0, total_size = 0, next_b = 0, prev_b = 0, request = 0,
                  msg_msgbuf = 0, msg_count = 0\<rparr>)"

text \<open>An engine whose world is the list of the calls it has seen. Its answers are fixed
  by a record: the error codes, the request an initiation stores, the completed requests.\<close>

datatype event = Waited addr | Freed addr | Added_ref addr | Progressed | Packed | Sent

record outcomes =
  wait_errno :: int
  progress_errno :: int
  pack_errno :: int
  isend_errno :: int
  isend_request :: addr
  completed :: "addr list"

definition engine_of :: "outcomes \<Rightarrow> event list engine" where
  "engine_of oc =
     \<lparr>MPID_Wait = (\<lambda>r w. (wait_errno oc, w @ [Waited r])),
      MPIR_Request_free = (\<lambda>r w. w @ [Freed r]),
      MPIR_Request_add_ref = (\<lambda>r w. w @ [Added_ref r]),
      MPIR_Request_is_complete = (\<lambda>w r. r \<in> set (completed oc)),
      MPIR_Request_is_persistent = (\<lambda>w r. False),
      MPID_Progress_test = (\<lambda>w. (progress_errno oc, w @ [Progressed])),
      MPIR_Pack_size = (\<lambda>n t. n),
      MPIR_Typerep_pack = (\<lambda>n t a m w. ((pack_errno oc, n), w @ [Packed])),
      MPID_Isend = (\<lambda>a n d t w. ((isend_errno oc, isend_request oc), w @ [Sent]))\<rparr>"

definition quiet :: outcomes where
  "quiet = \<lparr>wait_errno = 0, progress_errno = 0, pack_errno = 0, isend_errno = 0,
     isend_request = 7, completed = []\<rparr>"


text \<open>The arena of 1024 bytes at address 4096 of the scenarios: as attach leaves it, and
  after one send of 400 bytes whose request, 7, is still on the active list.\<close>

definition arena0 :: MPII_BsendBuffer where
  "arena0 = \<lparr>buffer = 4096, buffer_size = 1024, origbuffer = 4096, origbuffer_size = 1024,
     avail = 4096, active = 0\<rparr>"

definition heap_attached :: heap where
  "heap_attached = heap0(4096 := \<lparr>size_b = 960, total_size = 1024, next_b = 0, prev_b = 0,
     request = 0, msg_msgbuf = 4160, msg_count = 0\<rparr>)"

definition arena1 :: MPII_BsendBuffer where
  "arena1 = \<lparr>buffer = 4096, buffer_size = 1024, origbuffer = 4096, origbuffer_size = 1024,
     avail = 4560, active = 4096\<rparr>"

definition heap1 :: heap where
  "heap1 = heap0
     (4096 := \<lparr>size_b = 400, total_size = 464, next_b = 0, prev_b = 0, request = 7,
        msg_msgbuf = 4160, msg_count = 400\<rparr>,
      4560 := \<lparr>size_b = 496, total_size = 560, next_b = 0, prev_b = 0, request = 0,
        msg_msgbuf = 4624, msg_count = 0\<rparr>)"

text \<open>The arena after three sends of 100 bytes, the second of which is complete: blocks
  of span 176 at 4096, 4272 and 4448, the free rest at 4624. Then the first and the third
  are active and the second is free between them.\<close>

definition arena3 :: MPII_BsendBuffer where
  "arena3 = \<lparr>buffer = 4096, buffer_size = 1024, origbuffer = 4096, origbuffer_size = 1024,
     avail = 4272, active = 4448\<rparr>"

definition heap3 :: heap where
  "heap3 = heap0
     (4096 := \<lparr>size_b = 112, total_size = 176, next_b = 0, prev_b = 4448, request = 7,
        msg_msgbuf = 4160, msg_count = 100\<rparr>,
      4272 := \<lparr>size_b = 112, total_size = 176, next_b = 4624, prev_b = 0, request = 8,
        msg_msgbuf = 4336, msg_count = 100\<rparr>,
      4448 := \<lparr>size_b = 112, total_size = 176, next_b = 4096, prev_b = 0, request = 9,
        msg_msgbuf = 4512, msg_count = 100\<rparr>,
      4624 := \<lparr>size_b = 432, total_size = 496, next_b = 0, prev_b = 4272, request = 0,
        msg_msgbuf = 4688, msg_count = 0\<rparr>)"

definition comm_plain :: MPIR_Comm where
  "comm_plain = \<lparr>comm_bsendbuffer = None, session_ptr = None\<rparr>"

text \<open>The alignment of attach in the words of the specification: \<open>A\<close> is the larger of
  the two alignments, and a misaligned pointer is advanced by \<open>A - (ptr mod A)\<close>.\<close>

definition align_sz :: "platform \<Rightarrow> nat" where
  "align_sz pf = max (sizeof_voidp pf) (sizeof_double pf)"

definition align_gap :: "platform \<Rightarrow> addr \<Rightarrow> nat" where
  "align_gap pf ptr = (if ptr mod align_sz pf \<noteq> 0 then align_sz pf - ptr mod align_sz pf else 0)"

section \<open>Properties\<close>

lemmas set_defs = set_size_def set_total_size_def set_next_def set_prev_def set_request_def
  set_msgbuf_def set_count_def

subsection \<open>Lists in the heap\<close>

lemma head0_simps [simp]: "head0 [] = 0" "head0 (x # xs) = x"
  by (simp_all add: head0_def)

lemma last0_simps [simp]: "last0 [] = 0" "last0 (xs @ [x]) = x"
  by (simp_all add: last0_def)

lemma last0_Cons: "last0 (x # xs) = (if xs = [] then x else last0 xs)"
  by (simp add: last0_def)

subsection \<open>Fields after a write\<close>

lemma nexts_set [simp]:
  "nexts (set_next h a v) = (nexts h)(a := v)"
  "nexts (set_prev h a v) = nexts h"
  "nexts (set_size h a n) = nexts h"
  "nexts (set_total_size h a n) = nexts h"
  "nexts (set_request h a v) = nexts h"
  "nexts (set_msgbuf h a v) = nexts h"
  "nexts (set_count h a n) = nexts h"
  by (simp_all add: nexts_def set_defs fun_eq_iff)

lemma prevs_set [simp]:
  "prevs (set_prev h a v) = (prevs h)(a := v)"
  "prevs (set_next h a v) = prevs h"
  "prevs (set_size h a n) = prevs h"
  "prevs (set_total_size h a n) = prevs h"
  "prevs (set_request h a v) = prevs h"
  "prevs (set_msgbuf h a v) = prevs h"
  "prevs (set_count h a n) = prevs h"
  by (simp_all add: prevs_def set_defs fun_eq_iff)

lemma spans_set [simp]:
  "spans (set_total_size h a n) = (spans h)(a := n)"
  "spans (set_next h a v) = spans h"
  "spans (set_prev h a v) = spans h"
  "spans (set_size h a n) = spans h"
  "spans (set_request h a v) = spans h"
  "spans (set_msgbuf h a v) = spans h"
  "spans (set_count h a n) = spans h"
  by (simp_all add: spans_def set_defs fun_eq_iff)

lemma sizes_set [simp]:
  "sizes (set_size h a n) = (sizes h)(a := n)"
  "sizes (set_next h a v) = sizes h"
  "sizes (set_prev h a v) = sizes h"
  "sizes (set_total_size h a n) = sizes h"
  "sizes (set_request h a v) = sizes h"
  "sizes (set_msgbuf h a v) = sizes h"
  "sizes (set_count h a n) = sizes h"
  by (simp_all add: sizes_def set_defs fun_eq_iff)

lemma field_reads:
  "next_b (h x) = nexts h x" "prev_b (h x) = prevs h x"
  "total_size (h x) = spans h x" "size_b (h x) = sizes h x"
  by (simp_all add: nexts_def prevs_def spans_def sizes_def)

subsection \<open>Paths and back links\<close>

lemma path_null [simp]: "path nx 0 xs z \<longleftrightarrow> xs = [] \<and> z = 0"
  by (cases xs) auto

lemma path_append:
  "path nx a (xs @ ys) z \<longleftrightarrow> (\<exists>m. path nx a xs m \<and> path nx m ys z)"
  by (induction xs arbitrary: a) auto

lemma path_frame:
  "(\<And>x. x \<in> set xs \<Longrightarrow> nx' x = nx x) \<Longrightarrow> path nx' a xs z = path nx a xs z"
  by (induction xs arbitrary: a) auto

lemma path_upd [simp]: "u \<notin> set xs \<Longrightarrow> path (nx(u := v)) a xs z = path nx a xs z"
  by (rule path_frame) auto

lemma path_nonnull: "path nx a xs z \<Longrightarrow> 0 \<notin> set xs"
  by (induction xs arbitrary: a) auto

lemma path_head: "path nx a xs 0 \<Longrightarrow> a = head0 xs"
  by (cases xs) auto

lemma path_unique: "path nx a xs 0 \<Longrightarrow> path nx a ys 0 \<Longrightarrow> xs = ys"
proof (induction xs arbitrary: a ys)
  case Nil
  then show ?case by (cases ys) auto
next
  case (Cons x xs)
  then show ?case by (cases ys) auto
qed

lemma path_hd_notin_tl: "path nx (nx x) xs 0 \<Longrightarrow> x \<notin> set xs"
proof
  assume p: "path nx (nx x) xs 0" and "x \<in> set xs"
  then obtain us vs where xs: "xs = us @ x # vs" by (auto simp: in_set_conv_decomp)
  with p obtain m where "path nx m (x # vs) 0" by (auto simp: path_append)
  then have "path nx (nx x) vs 0" by simp
  with p have "xs = vs" by (rule path_unique)
  with xs show False by simp
qed

lemma path_distinct: "path nx a xs 0 \<Longrightarrow> distinct xs"
proof (induction xs arbitrary: a)
  case Nil
  then show ?case by simp
next
  case (Cons x xs)
  then show ?case by (auto dest: path_hd_notin_tl)
qed

lemma backlinks_append:
  "backlinks pv prv (xs @ ys) \<longleftrightarrow> backlinks pv prv xs \<and> backlinks pv (last (prv # xs)) ys"
  by (induction xs arbitrary: prv) auto

lemma backlinks_frame:
  "(\<And>x. x \<in> set xs \<Longrightarrow> pv' x = pv x) \<Longrightarrow> backlinks pv' prv xs = backlinks pv prv xs"
  by (induction xs arbitrary: prv) auto

lemma backlinks_upd [simp]:
  "u \<notin> set xs \<Longrightarrow> backlinks (pv(u := v)) prv xs = backlinks pv prv xs"
  by (rule backlinks_frame) auto

lemma dlist_distinct: "dlist h a xs \<Longrightarrow> distinct xs"
  by (auto simp: dlist_def dest: path_distinct)

lemma dlist_nonnull: "dlist h a xs \<Longrightarrow> 0 \<notin> set xs"
  by (auto simp: dlist_def dest: path_nonnull)

lemma dlist_head: "dlist h a xs \<Longrightarrow> a = head0 xs"
  by (auto simp: dlist_def dest: path_head)

lemma path_last_next:
  "path nx a (xs @ [q]) z \<Longrightarrow> nx q = z"
  by (induction xs arbitrary: a) auto

lemma path_mid:
  assumes "path nx a (xs @ p # ys) 0"
  shows "nx p = head0 ys" and "path nx a xs p" and "path nx (nx p) ys 0"
proof -
  from assms obtain m where m: "path nx a xs m" "path nx m (p # ys) 0"
    by (auto simp: path_append)
  then show "path nx a xs p" "path nx (nx p) ys 0" by auto
  then show "nx p = head0 ys" by (auto dest: path_head)
qed

lemma backlinks_mid:
  assumes "backlinks pv prv (xs @ p # ys)"
  shows "pv p = last (prv # xs)" and "backlinks pv prv xs" and "backlinks pv p ys"
  using assms by (auto simp: backlinks_append)

text \<open>Taking \<open>p\<close> out of a list: the block before it, or the head, gets its \<open>next\<close>; the
  block behind it gets its \<open>prev\<close>.\<close>

lemma unlink_path:
  assumes "path nx a (xs @ p # ys) 0"
  shows "path (if last0 xs \<noteq> 0 then nx(last0 xs := nx p) else nx)
              (if last0 xs \<noteq> 0 then a else nx p) (xs @ ys) 0"
proof -
  have d: "distinct (xs @ p # ys)" and nn: "0 \<notin> set (xs @ p # ys)"
    using path_distinct [OF assms] path_nonnull [OF assms] by simp_all
  note m = path_mid [OF assms]
  show ?thesis
  proof (cases xs rule: rev_cases)
    case Nil
    with m show ?thesis by simp
  next
    case (snoc xs' q)
    with m(2) have "path nx a xs' q" by (auto simp: path_append)
    moreover have "q \<notin> set xs'" "q \<notin> set ys" "q \<noteq> 0" using d nn snoc by auto
    ultimately show ?thesis
      using snoc m(3) by (auto simp: path_append)
  qed
qed

lemma unlink_backlinks:
  assumes "backlinks pv prv (xs @ p # ys)" and "distinct (xs @ p # ys)" and "0 \<notin> set ys"
  shows "backlinks (if head0 ys \<noteq> 0 then pv(head0 ys := pv p) else pv) prv (xs @ ys)"
proof (cases ys)
  case Nil
  with assms show ?thesis by (simp add: backlinks_append)
next
  case (Cons y ys')
  with assms have "y \<noteq> 0" "y \<notin> set xs" "y \<notin> set ys'" by auto
  with Cons assms(1) show ?thesis
    by (auto simp: backlinks_append)
qed

text \<open>Joining two lists: the fields may change anywhere but at the blocks of the two
  lists, where only the \<open>next\<close> of the last block of the first list and the \<open>prev\<close> of the
  first block of the second list are new.\<close>

lemma path_join:
  assumes l: "path nx a l m" and r: "path nx b r 0"
    and same: "\<And>x. x \<in> set (butlast l) \<union> set r \<Longrightarrow> nx' x = nx x"
    and link: "l \<noteq> [] \<Longrightarrow> nx' (last l) = b"
    and d: "distinct l"
  shows "path nx' (if l = [] then b else a) (l @ r) 0"
proof (cases l rule: rev_cases)
  case Nil
  have "path nx' b r 0 = path nx b r 0" by (rule path_frame) (simp add: same)
  with r Nil show ?thesis by simp
next
  case (snoc l' q)
  with l have l': "path nx a l' q" and q: "q \<noteq> 0" by (auto simp: path_append)
  have "path nx' a l' q = path nx a l' q"
    by (rule path_frame) (simp add: same snoc)
  moreover have "path nx' b r 0 = path nx b r 0" by (rule path_frame) (simp add: same)
  ultimately show ?thesis
    using l' r q link snoc by (auto simp: path_append)
qed

lemma backlinks_join:
  assumes l: "backlinks pv prv l" and r: "backlinks pv prv' r"
    and same: "\<And>x. x \<in> set l \<union> set (tl r) \<Longrightarrow> pv' x = pv x"
    and link: "r \<noteq> [] \<Longrightarrow> pv' (hd r) = last (prv # l)"
  shows "backlinks pv' prv (l @ r)"
proof -
  have "backlinks pv' prv l = backlinks pv prv l"
    by (rule backlinks_frame) (simp add: same)
  moreover have "backlinks pv' (last (prv # l)) r"
  proof (cases r)
    case Nil
    then show ?thesis by simp
  next
    case (Cons y ys)
    have "backlinks pv' y ys = backlinks pv y ys"
      by (rule backlinks_frame) (simp add: same Cons)
    with r link Cons show ?thesis by simp
  qed
  ultimately show ?thesis using l by (simp add: backlinks_append)
qed

lemma path_tl: "path nx a r 0 \<Longrightarrow> r \<noteq> [] \<Longrightarrow> path nx (nx (hd r)) (tl r) 0"
  by (cases r) auto

lemma backlinks_tl: "backlinks pv prv r \<Longrightarrow> r \<noteq> [] \<Longrightarrow> backlinks pv (hd r) (tl r)"
  by (cases r) auto

lemma head0_hd: "r \<noteq> [] \<Longrightarrow> head0 r = hd r"
  by (cases r) auto

lemma head0_null: "0 \<notin> set r \<Longrightarrow> head0 r = 0 \<longleftrightarrow> r = []"
  by (cases r) auto

lemma last0_last: "l \<noteq> [] \<Longrightarrow> last0 l = last l"
  by (simp add: last0_def)

lemma last0_null: "0 \<notin> set l \<Longrightarrow> last0 l = 0 \<longleftrightarrow> l = []"
  by (cases l rule: rev_cases) auto

subsection \<open>Attach\<close>

lemma attach_Inr:
  assumes g1: "\<not> (HAVE_ERROR_CHECKING pf
                  \<and> buffer (case slot of None \<Rightarrow> calloc_BsendBuffer | Some b \<Rightarrow> b) \<noteq> 0)"
    and g2: "\<not> (HAVE_ERROR_CHECKING pf \<and> n < MPI_BSEND_OVERHEAD pf)"
  shows "MPIR_Bsend_attach pf slot h ptr n =
     (Inr (),
      Some ((case slot of None \<Rightarrow> calloc_BsendBuffer | Some b \<Rightarrow> b)
              \<lparr>origbuffer := ptr, origbuffer_size := n, buffer := ptr + align_gap pf ptr,
                buffer_size := n - align_gap pf ptr, avail := ptr + align_gap pf ptr,
                active := 0\<rparr>),
      h(ptr + align_gap pf ptr := (h (ptr + align_gap pf ptr))
          \<lparr>size_b := n - BSENDDATA_HEADER_TRUE_SIZE pf, total_size := n, next_b := 0,
            prev_b := 0,
            msg_msgbuf := ptr + align_gap pf ptr + BSENDDATA_HEADER_TRUE_SIZE pf\<rparr>))"
proof (cases "ptr mod align_sz pf = 0")
  case True
  then have "align_gap pf ptr = 0" by (simp add: align_gap_def)
  with True g1 g2 show ?thesis
    unfolding MPIR_Bsend_attach_def align_sz_def [symmetric]
    by (simp add: Let_def set_defs)
next
  case False
  then have "align_gap pf ptr = align_sz pf - ptr mod align_sz pf"
    by (simp add: align_gap_def)
  with False g1 g2 show ?thesis
    unfolding MPIR_Bsend_attach_def align_sz_def [symmetric]
    by (simp add: Let_def set_defs)
qed

lemma attach_guards:
  assumes "MPIR_Bsend_attach pf slot h ptr n = (Inr (), slot', h')"
  shows "\<not> (HAVE_ERROR_CHECKING pf
            \<and> buffer (case slot of None \<Rightarrow> calloc_BsendBuffer | Some b \<Rightarrow> b) \<noteq> 0)"
    and "\<not> (HAVE_ERROR_CHECKING pf \<and> n < MPI_BSEND_OVERHEAD pf)"
proof -
  let ?b0 = "case slot of None \<Rightarrow> calloc_BsendBuffer | Some b \<Rightarrow> b"
  show g1: "\<not> (HAVE_ERROR_CHECKING pf \<and> buffer ?b0 \<noteq> 0)"
  proof
    assume "HAVE_ERROR_CHECKING pf \<and> buffer ?b0 \<noteq> 0"
    then have "fst (MPIR_Bsend_attach pf slot h ptr n) = Inl BUFFER_ALREADY_ATTACHED"
      by (simp add: MPIR_Bsend_attach_def Let_def)
    with assms show False by simp
  qed
  show "\<not> (HAVE_ERROR_CHECKING pf \<and> n < MPI_BSEND_OVERHEAD pf)"
  proof
    assume "HAVE_ERROR_CHECKING pf \<and> n < MPI_BSEND_OVERHEAD pf"
    with g1 have "fst (MPIR_Bsend_attach pf slot h ptr n) = Inl (BUFFER_TOO_SMALL pf n)"
      by (simp add: MPIR_Bsend_attach_def Let_def)
    with assms show False by simp
  qed
qed

lemma scenario_align_gap [simp]:
  "align_gap scenario_platform ptr = (if ptr mod 8 \<noteq> 0 then 8 - ptr mod 8 else 0)"
  by (simp add: align_gap_def align_sz_def scenario_platform_def)

lemma scenario_fields [simp]:
  "BSENDDATA_HEADER_TRUE_SIZE scenario_platform = 64"
  "MAX_ALIGNMENT scenario_platform = 16"
  "MPI_BSEND_OVERHEAD scenario_platform = 72"
  "HAVE_ERROR_CHECKING scenario_platform"
  by (simp_all add: scenario_platform_def)

lemma attach_scenario:
  "MPIR_Bsend_attach scenario_platform None heap0 4096 1024 = (Inr (), Some arena0, heap_attached)"
  by (subst attach_Inr)
     (simp_all add: calloc_BsendBuffer_def arena0_def heap_attached_def heap0_def)

text \<open>
  C1. Claim: after a successful attach of a misaligned region the free list holds one
  block whose span is the reduced, forward-aligned size. The code at a misaligned
  pointer: the region of 4096 bytes at 4100 is advanced to 4104 and the arena's size is
  reduced to 4092, yet the one block of the free list is written with the span 4096 and
  the payload capacity 4032, four bytes more than the region holds.
\<close>

theorem attach_misaligned_block_span:
  "MPIR_Bsend_attach scenario_platform None heap0 4100 4096 =
     (Inr (),
      Some \<lparr>buffer = 4104, buffer_size = 4092, origbuffer = 4100, origbuffer_size = 4096,
             avail = 4104, active = 0\<rparr>,
      heap0(4104 := \<lparr>size_b = 4032, total_size = 4096, next_b = 0, prev_b = 0, request = 0,
                      msg_msgbuf = 4168, msg_count = 0\<rparr>))"
  by (subst attach_Inr) (simp_all add: calloc_BsendBuffer_def heap0_def)


subsection \<open>Detach\<close>

lemma detach_drain_path:
  "path (nexts h) a xs 0 \<Longrightarrow>
     detach_drain eng h a w = Some (wait_each eng (map (\<lambda>x. request (h x)) xs) w)"
proof (induction xs arbitrary: a w)
  case Nil
  then show ?case by (simp add: detach_drain.simps)
next
  case (Cons x xs)
  from Cons.prems have a: "a = x" "x \<noteq> 0" and rest: "path (nexts h) (next_b (h x)) xs 0"
    by (simp_all add: nexts_def)
  show ?case
    using a Cons.IH [OF rest]
    by (subst detach_drain.simps) (simp split: prod.splits)
qed

lemma dlist_null [simp]: "dlist h 0 xs \<longleftrightarrow> xs = []"
  by (cases xs) (auto simp: dlist_def)

lemma detach_wf:
  assumes wf: "dlist h (active b) as"
  shows "MPIR_Bsend_detach eng (Some b) h w =
        Some (case wait_each eng (map (\<lambda>x. request (h x)) as) w of
                (mpi_errno, w1) \<Rightarrow>
                  if mpi_errno \<noteq> 0 then (Inl (Passed_on mpi_errno), Some b, w1)
                  else (Inr (origbuffer b, origbuffer_size b),
                        Some (b\<lparr>origbuffer := 0, origbuffer_size := 0, buffer := 0,
                                buffer_size := 0, avail := 0, active := 0\<rparr>), w1))"
proof (cases "active b = 0")
  case True
  with wf have "as = []" by simp
  with True show ?thesis by (simp add: MPIR_Bsend_detach_def)
next
  case False
  from wf have "detach_drain eng h (active b) w
      = Some (wait_each eng (map (\<lambda>x. request (h x)) as) w)"
    unfolding dlist_def by (intro detach_drain_path) simp
  with False show ?thesis
    by (simp add: MPIR_Bsend_detach_def split: prod.splits)
qed

text \<open>
  C6 (amended). For every attached arena whose active list is well formed, detach waits
  on the handles of the active blocks from head to tail, releasing each handle after its
  wait, and stops at the first wait that reports an error: it then returns that error
  and leaves the slot as it was. When no wait reports an error it empties the slot's
  state and returns the original pointer and size. Detach of a null slot returns
  (null, 0) without error, and detach right after a successful attach returns the
  pointer and size passed to attach and leaves the record allocated with no region.
\<close>

theorem detach_drains_then_returns:
  "(dlist h (active b) as \<longrightarrow>
      MPIR_Bsend_detach eng (Some b) h w =
        Some (case wait_each eng (map (\<lambda>x. request (h x)) as) w of
                (mpi_errno, w1) \<Rightarrow>
                  if mpi_errno \<noteq> 0 then (Inl (Passed_on mpi_errno), Some b, w1)
                  else (Inr (origbuffer b, origbuffer_size b),
                        Some (b\<lparr>origbuffer := 0, origbuffer_size := 0, buffer := 0,
                                buffer_size := 0, avail := 0, active := 0\<rparr>), w1)))
   \<and> MPIR_Bsend_detach eng None h w = Some (Inr (0, 0), None, w)
   \<and> (MPIR_Bsend_attach pf slot h ptr n = (Inr (), slot', h') \<longrightarrow>
        (\<exists>b'. MPIR_Bsend_detach eng slot' h' w = Some (Inr (ptr, n), Some b', w)
            \<and> buffer b' = 0 \<and> avail b' = 0 \<and> active b' = 0))"
proof (intro conjI impI)
  assume "dlist h (active b) as"
  then show "MPIR_Bsend_detach eng (Some b) h w =
        Some (case wait_each eng (map (\<lambda>x. request (h x)) as) w of
                (mpi_errno, w1) \<Rightarrow>
                  if mpi_errno \<noteq> 0 then (Inl (Passed_on mpi_errno), Some b, w1)
                  else (Inr (origbuffer b, origbuffer_size b),
                        Some (b\<lparr>origbuffer := 0, origbuffer_size := 0, buffer := 0,
                                buffer_size := 0, avail := 0, active := 0\<rparr>), w1))"
    by (rule detach_wf)
next
  show "MPIR_Bsend_detach eng None h w = Some (Inr (0, 0), None, w)"
    by (simp add: MPIR_Bsend_detach_def)
next
  assume att: "MPIR_Bsend_attach pf slot h ptr n = (Inr (), slot', h')"
  show "\<exists>b'. MPIR_Bsend_detach eng slot' h' w = Some (Inr (ptr, n), Some b', w)
            \<and> buffer b' = 0 \<and> avail b' = 0 \<and> active b' = 0"
    using att attach_Inr [OF attach_guards [OF att], of h ptr]
    by (auto simp: MPIR_Bsend_detach_def)
qed

lemma dlist_heap1_active: "dlist heap1 (active arena1) [4096]"
  by (simp add: dlist_def nexts_def prevs_def heap1_def arena1_def)

text \<open>A run where the wait on the one outstanding request succeeds.\<close>

theorem detach_drains_then_returns_witness:
  "dlist heap1 (active arena1) [4096]
   \<and> MPIR_Bsend_detach (engine_of quiet) (Some arena1) heap1 [] =
       Some (Inr (4096, 1024), Some calloc_BsendBuffer, [Waited 7, Freed 7])
   \<and> MPIR_Bsend_detach (engine_of quiet) None heap1 [] = Some (Inr (0, 0), None, [])
   \<and> MPIR_Bsend_attach scenario_platform None heap0 4096 1024
        = (Inr (), Some arena0, heap_attached)
   \<and> MPIR_Bsend_detach (engine_of quiet) (Some arena0) heap_attached []
        = Some (Inr (4096, 1024), Some calloc_BsendBuffer, [])"
  using detach_drains_then_returns [of heap1 arena1 "[4096]" "engine_of quiet" "[]"
      scenario_platform None 4096 1024 "Some arena0" heap_attached]
    dlist_heap1_active attach_scenario
  by (simp add: heap1_def arena1_def arena0_def engine_of_def quiet_def calloc_BsendBuffer_def
        MPIR_Bsend_detach_def)

text \<open>
  C6 as claimed fails where a wait reports an error: for the arena with one outstanding
  send, a wait that returns the error code 5 makes detach return that error; the slot
  still holds the arena, and no pointer and size are returned.
\<close>

theorem detach_wait_error_counterexample:
  "MPIR_Bsend_detach (engine_of (quiet\<lparr>wait_errno := 5\<rparr>)) (Some arena1) heap1 [] =
     Some (Inl (Passed_on 5), Some arena1, [Waited 7])"
  using detach_wf [OF dlist_heap1_active, of "engine_of (quiet\<lparr>wait_errno := 5\<rparr>)" "[]"]
  by (simp add: heap1_def engine_of_def quiet_def)








subsection \<open>The choice of the arena\<close>

lemma find_buffer_walk_null [simp]: "find_buffer_walk h 0 n = Some 0"
  by (subst find_buffer_walk.simps) simp

lemma check_active_empty [simp]:
  "active b = 0 \<Longrightarrow> MPIR_Bsend_check_active pf eng b h w = Some (0, b, h, w)"
  by (simp add: MPIR_Bsend_check_active_def)



subsection \<open>Free with merge\<close>

lemma unlink_fields:
  "free_segment_unlink b h p =
     (b\<lparr>active := (if prevs h p \<noteq> 0 then active b else nexts h p)\<rparr>,
      snd (free_segment_unlink b h p))"
  "nexts (snd (free_segment_unlink b h p)) =
     (if prevs h p \<noteq> 0 then (nexts h)(prevs h p := nexts h p) else nexts h)"
  "prevs (snd (free_segment_unlink b h p)) =
     (if nexts h p \<noteq> 0 then (prevs h)(nexts h p := prevs h p) else prevs h)"
  "spans (snd (free_segment_unlink b h p)) = spans h"
  "sizes (snd (free_segment_unlink b h p)) = sizes h"
  by (simp_all add: free_segment_unlink_def Let_def field_reads)

lemma merge_next_fields:
  assumes "p \<noteq> a"
  shows
  "nexts (free_segment_merge_next pf h p a) =
     (nexts h)(p := (if a \<noteq> 0 \<and> p + spans h p = a then nexts h a else a))"
  "prevs (free_segment_merge_next pf h p a) =
     (if a = 0 then prevs h
      else if p + spans h p = a then (if nexts h a \<noteq> 0 then (prevs h)(nexts h a := p) else prevs h)
      else (prevs h)(a := p))"
  "spans (free_segment_merge_next pf h p a) =
     (if a \<noteq> 0 \<and> p + spans h p = a then (spans h)(p := spans h p + spans h a) else spans h)"
  "sizes (free_segment_merge_next pf h p a) =
     (if a \<noteq> 0 \<and> p + spans h p = a
      then (sizes h)(p := spans h p + spans h a - BSENDDATA_HEADER_TRUE_SIZE pf) else sizes h)"
  using assms by (simp_all add: free_segment_merge_next_def Let_def field_reads)

lemma merge_prev_fields:
  assumes "p \<noteq> q"
  shows
  "fst (free_segment_merge_prev pf b h p q) = (if q \<noteq> 0 then b else b\<lparr>avail := p\<rparr>)"
  "nexts (snd (free_segment_merge_prev pf b h p q)) =
     (if q = 0 then nexts h
      else (nexts h)(q := (if q + spans h q = p then nexts h p else p)))"
  "prevs (snd (free_segment_merge_prev pf b h p q)) =
     (if q = 0 then (prevs h)(p := 0)
      else if q + spans h q = p then (if nexts h p \<noteq> 0 then (prevs h)(nexts h p := q) else prevs h)
      else (prevs h)(p := q))"
  "spans (snd (free_segment_merge_prev pf b h p q)) =
     (if q \<noteq> 0 \<and> q + spans h q = p then (spans h)(q := spans h q + spans h p) else spans h)"
  "sizes (snd (free_segment_merge_prev pf b h p q)) =
     (if q \<noteq> 0 \<and> q + spans h q = p
      then (sizes h)(q := spans h q + spans h p - BSENDDATA_HEADER_TRUE_SIZE pf) else sizes h)"
  using assms by (simp_all add: free_segment_merge_prev_def Let_def field_reads)

lemma free_segment_walk_path:
  "path (nexts h) a fs 0 \<Longrightarrow>
     free_segment_walk h p q a =
       Some (last (q # takeWhile (\<lambda>x. x \<le> p) fs), head0 (dropWhile (\<lambda>x. x \<le> p) fs))"
proof (induction fs arbitrary: a q)
  case Nil
  then show ?case by (subst free_segment_walk.simps) simp
next
  case (Cons x xs)
  then have "a = x" "x \<noteq> 0" "path (nexts h) (nexts h x) xs 0" by simp_all
  with Cons.IH [of "nexts h x" x] show ?case
    by (subst free_segment_walk.simps) (simp add: field_reads)
qed

text \<open>Putting \<open>p\<close> into a list between \<open>l\<close> and \<open>r\<close>, as the two merge steps do: \<open>mr\<close>
  says that the first block of \<open>r\<close> is absorbed by \<open>p\<close>, \<open>ml\<close> that \<open>p\<close> is absorbed by the
  last block of \<open>l\<close>.\<close>

lemma insert_free_lists:
  fixes nx pv :: "addr \<Rightarrow> addr"
  assumes pa: "path nx a (l @ r) 0" and ba: "backlinks pv 0 (l @ r)"
    and pn: "p \<notin> set (l @ r)" and p0: "p \<noteq> 0"
    and mr: "mr \<Longrightarrow> r \<noteq> []" and ml: "ml \<Longrightarrow> l \<noteq> []"
    and r': "r' = (if mr then tl r else r)"
    and nx2: "nx2 = nx(p := head0 r')"
    and pv2: "pv2 = (if r' = [] then pv else pv(head0 r' := p))"
    and nx3: "nx3 = (if l = [] then nx2 else nx2(last l := (if ml then nx2 p else p)))"
    and pv3: "pv3 = (if l = [] then pv2(p := 0)
                     else if ml then (if nx2 p \<noteq> 0 then pv2(nx2 p := last l) else pv2)
                     else pv2(p := last l))"
  shows "path nx3 (if l = [] then p else a) (l @ (if ml then [] else [p]) @ r') 0"
    and "backlinks pv3 0 (l @ (if ml then [] else [p]) @ r')"
proof -
  have d: "distinct (l @ r)" and nn: "0 \<notin> set (l @ r)"
    using path_distinct [OF pa] path_nonnull [OF pa] by simp_all
  from pa obtain m where pl: "path nx a l m" and pr: "path nx m r 0"
    by (auto simp: path_append)
  from ba have bl: "backlinks pv 0 l" and br: "backlinks pv (last (0 # l)) r"
    by (simp_all add: backlinks_append)
  have sub: "set r' \<subseteq> set r" and dr': "distinct r'" and nnr': "0 \<notin> set r'"
  proof -
    have "set (tl r) \<subseteq> set r" by (cases r) auto
    then show "set r' \<subseteq> set r" using r' by auto
    then show "0 \<notin> set r'" using nn by auto
    show "distinct r'" using d r' by (simp add: distinct_tl)
  qed
  have pr': "path nx (head0 r') r' 0"
  proof (cases mr)
    case True
    with mr pr r' have "path nx (nx (hd r)) r' 0" by (simp add: path_tl)
    then show ?thesis using path_head by fastforce
  next
    case False
    with pr r' show ?thesis using path_head by fastforce
  qed
  obtain prv' where br': "backlinks pv prv' r'"
    using br r' mr by (cases mr) (auto dest: backlinks_tl)
  have pnr': "p \<notin> set r'" and pnl: "p \<notin> set l" using pn sub by auto
  have dlr': "set l \<inter> set r' = {}" using d sub by auto
  have A: "path nx2 (head0 r') r' 0"
    using pr' pnr' by (simp add: nx2)
  have A': "path nx2 p (p # r') 0"
    using A p0 by (simp add: nx2)
  have B: "backlinks pv2 p r'"
  proof (cases r')
    case Nil
    then show ?thesis by simp
  next
    case (Cons y ys)
    with br' dr' show ?thesis by (simp add: pv2)
  qed
  have C: "path nx2 a l m" using pl pnl by (simp add: nx2)
  have D: "backlinks pv2 0 l"
  proof (cases r')
    case Nil
    with bl show ?thesis by (simp add: pv2)
  next
    case (Cons y ys)
    with dlr' have "y \<notin> set l" by auto
    with bl Cons show ?thesis by (simp add: pv2)
  qed
  have np: "nx2 p = head0 r'" by (simp add: nx2)
  have h0: "head0 r' \<noteq> 0 \<longleftrightarrow> r' \<noteq> []" using nnr' by (simp add: head0_null)
  show "path nx3 (if l = [] then p else a) (l @ (if ml then [] else [p]) @ r') 0"
  proof (cases "l = []")
    case True
    with ml have "\<not> ml" by auto
    with True A' show ?thesis by (simp add: nx3)
  next
    case False
    have dl: "distinct l" using d by simp
    have lastl: "last l \<in> set l" using False by simp
    have bl_ne: "\<And>x. x \<in> set (butlast l) \<Longrightarrow> x \<noteq> last l"
      using dl False by (metis append_butlast_last_id distinct_append disjoint_iff
          list.set_intros(1))
    show ?thesis
    proof (cases ml)
      case True
      have "path nx3 (if l = [] then head0 r' else a) (l @ r') 0"
      proof (rule path_join [OF C A _ _ dl])
        fix x assume "x \<in> set (butlast l) \<union> set r'"
        then have "x \<noteq> last l" using bl_ne dlr' lastl by auto
        then show "nx3 x = nx2 x" using False by (simp add: nx3)
      next
        show "nx3 (last l) = head0 r'" using False True by (simp add: nx3 np)
      qed
      with False True show ?thesis by simp
    next
      case nml: False
      have "path nx3 (if l = [] then p else a) (l @ p # r') 0"
      proof (rule path_join [OF C A' _ _ dl])
        fix x assume "x \<in> set (butlast l) \<union> set (p # r')"
        then have "x \<noteq> last l" using bl_ne dlr' lastl pnl by auto
        then show "nx3 x = nx2 x" using False by (simp add: nx3)
      next
        show "nx3 (last l) = p" using False nml by (simp add: nx3)
      qed
      with False nml show ?thesis by simp
    qed
  qed
  show "backlinks pv3 0 (l @ (if ml then [] else [p]) @ r')"
  proof (cases "l = []")
    case True
    with ml have "\<not> ml" by auto
    with True B pnr' show ?thesis by (simp add: pv3)
  next
    case False
    have lastl: "last l \<in> set l" using False by simp
    show ?thesis
    proof (cases ml)
      case True
      have "backlinks pv3 0 (l @ r')"
      proof (rule backlinks_join [OF D B])
        fix x assume x: "x \<in> set l \<union> set (tl r')"
        have "x \<noteq> head0 r' \<or> r' = []"
          using x dlr' dr' by (cases r') auto
        then show "pv3 x = pv2 x" using False True by (auto simp: pv3 np)
      next
        assume "r' \<noteq> []"
        then show "pv3 (hd r') = last (0 # l)"
          using False True h0 by (simp add: pv3 np head0_hd)
      qed
      with True show ?thesis by simp
    next
      case nml: False
      have B': "backlinks pv2 (pv2 p) (p # r')" using B by simp
      have "backlinks pv3 0 (l @ p # r')"
      proof (rule backlinks_join [OF D B'])
        fix x assume x: "x \<in> set l \<union> set (tl (p # r'))"
        then have "x \<noteq> p" using pnl pnr' by auto
        then show "pv3 x = pv2 x" using False nml by (simp add: pv3)
      next
        show "pv3 (hd (p # r')) = last (0 # l)"
          using False nml by (simp add: pv3)
      qed
      with nml show ?thesis by simp
    qed
  qed
qed

lemma free_segment_lists:
  assumes fl: "dlist h (avail b) fs" and al: "dlist h (active b) as"
    and p: "p \<in> set as" and dj: "set fs \<inter> set as = {}"
  shows "\<exists>b' h'. MPIR_Bsend_free_segment pf b h p = Some (b', h')
     \<and> dlist h' (avail b') (free_list_after h p fs)
     \<and> dlist h' (active b') (remove1 p as)
     \<and> spans h' = (let t2 = (spans h)(p := span_after h p fs) in
                    if merges_left h p fs
                    then t2(last (left_of p fs) :=
                              spans h (last (left_of p fs)) + span_after h p fs)
                    else t2)
     \<and> sizes h' = (let s2 = (if merges_right h p fs
                              then (sizes h)(p := span_after h p fs - BSENDDATA_HEADER_TRUE_SIZE pf)
                              else sizes h) in
                    if merges_left h p fs
                    then s2(last (left_of p fs) :=
                              spans h (last (left_of p fs)) + span_after h p fs
                                - BSENDDATA_HEADER_TRUE_SIZE pf)
                    else s2)
     \<and> buffer b' = buffer b \<and> buffer_size b' = buffer_size b
     \<and> origbuffer b' = origbuffer b \<and> origbuffer_size b' = origbuffer_size b"
proof -
  define l where "l = left_of p fs"
  define r where "r = right_of p fs"
  have fs: "fs = l @ r" by (simp add: l_def r_def left_of_def right_of_def)
  from p obtain as1 as2 where as: "as = as1 @ p # as2" and pn1: "p \<notin> set as1"
    using split_list_first [OF p] by blast
  have da: "distinct as" and na: "0 \<notin> set as" and df: "distinct fs" and nf: "0 \<notin> set fs"
    using al fl by (auto dest: dlist_distinct dlist_nonnull)
  have p0: "p \<noteq> 0"
  proof
    assume "p = 0"
    with na p show False by simp
  qed
  have pnf: "p \<notin> set fs" using dj p by auto
  have rm: "remove1 p as = as1 @ as2" using as pn1 by (simp add: remove1_append)
  from al have pa: "path (nexts h) (active b) (as1 @ p # as2) 0"
    and ba: "backlinks (prevs h) 0 (as1 @ p # as2)" by (simp_all add: dlist_def as)
  from fl have pf0: "path (nexts h) (avail b) (l @ r) 0"
    and bf0: "backlinks (prevs h) 0 (l @ r)" by (simp_all add: dlist_def fs)
  have pvp: "prevs h p = last0 as1" using backlinks_mid(1) [OF ba] by (simp add: last0_def)
  have nxp: "nexts h p = head0 as2" using path_mid(1) [OF pa] .
  \<comment> \<open>after the block has left the active list\<close>
  define h1 where "h1 = snd (free_segment_unlink b h p)"
  define b1 where "b1 = b\<lparr>active := (if prevs h p \<noteq> 0 then active b else nexts h p)\<rparr>"
  have u: "free_segment_unlink b h p = (b1, h1)"
    unfolding b1_def h1_def by (rule unlink_fields(1))
  have nx1: "nexts h1 = (if last0 as1 \<noteq> 0 then (nexts h)(last0 as1 := nexts h p) else nexts h)"
    unfolding h1_def by (simp add: unlink_fields(2) pvp)
  have pv1: "prevs h1 = (if head0 as2 \<noteq> 0 then (prevs h)(head0 as2 := prevs h p) else prevs h)"
    unfolding h1_def by (simp add: unlink_fields(3) nxp)
  have t1: "spans h1 = spans h" and s1: "sizes h1 = sizes h"
    unfolding h1_def by (simp_all add: unlink_fields(4,5))
  have l1in: "last0 as1 \<noteq> 0 \<Longrightarrow> last0 as1 \<in> set as"
    by (cases as1 rule: rev_cases) (auto simp: as)
  have h2in: "head0 as2 \<noteq> 0 \<Longrightarrow> head0 as2 \<in> set as"
    by (cases as2) (auto simp: as)
  have act1: "path (nexts h1) (active b1) (as1 @ as2) 0"
    using unlink_path [OF pa] by (simp add: nx1 b1_def pvp)
  have actb1: "backlinks (prevs h1) 0 (as1 @ as2)"
    using unlink_backlinks [OF ba] da na by (simp add: pv1 as)
  have free1: "path (nexts h1) (avail b) (l @ r) 0"
  proof -
    have "path (nexts h1) (avail b) (l @ r) 0 = path (nexts h) (avail b) (l @ r) 0"
      using l1in dj fs by (intro path_frame) (auto simp: nx1)
    with pf0 show ?thesis by simp
  qed
  have freeb1: "backlinks (prevs h1) 0 (l @ r)"
  proof -
    have "backlinks (prevs h1) 0 (l @ r) = backlinks (prevs h) 0 (l @ r)"
      using h2in dj fs by (intro backlinks_frame) (auto simp: pv1)
    with bf0 show ?thesis by simp
  qed
  \<comment> \<open>the walk\<close>
  have walk: "free_segment_walk h1 p 0 (avail b) = Some (last0 l, head0 r)"
    using free_segment_walk_path [of h1 "avail b" fs p 0] free1
    by (simp add: fs [symmetric] l_def r_def left_of_def right_of_def last0_def)
  have pnl: "p \<notin> set l" and pnr: "p \<notin> set r" using pnf fs by auto
  have nl: "0 \<notin> set l" and nr: "0 \<notin> set r" using nf fs by auto
  have pq: "p \<noteq> last0 l" using pnl p0 by (cases l rule: rev_cases) auto
  have pm: "p \<noteq> head0 r" using pnr p0 by (cases r) auto
  \<comment> \<open>the two merge steps\<close>
  define mr where "mr = merges_right h p fs"
  define ml where "ml = merges_left h p fs"
  define r' where "r' = (if mr then tl r else r)"
  have mr_alt: "mr \<longleftrightarrow> head0 r \<noteq> 0 \<and> p + spans h1 p = head0 r"
    using nr by (cases r) (auto simp: mr_def merges_right_def r_def [symmetric] t1)
  have mr_ne: "mr \<Longrightarrow> r \<noteq> []" by (simp add: mr_def merges_right_def r_def)
  have ml_ne: "ml \<Longrightarrow> l \<noteq> []" by (simp add: ml_def merges_left_def l_def)
  define h2 where "h2 = free_segment_merge_next pf h1 p (head0 r)"
  have nxr: "r \<noteq> [] \<Longrightarrow> nexts h1 (hd r) = head0 (tl r)"
  proof -
    assume "r \<noteq> []"
    then obtain y ys where r: "r = y # ys" by (cases r) auto
    with free1 have "path (nexts h1) (nexts h1 y) ys 0" by (auto simp: path_append)
    then show ?thesis using r path_head by fastforce
  qed
  have nx2: "nexts h2 = (nexts h1)(p := head0 r')"
  proof (cases mr)
    case True
    then have "r \<noteq> []" by (rule mr_ne)
    then have "nexts h1 (head0 r) = head0 (tl r)" using nxr by (simp add: head0_hd)
    moreover have "head0 r \<noteq> 0 \<and> p + spans h1 p = head0 r" using True mr_alt by simp
    ultimately show ?thesis
      unfolding h2_def merge_next_fields(1) [OF pm] r'_def using True by simp
  next
    case False
    then have "\<not> (head0 r \<noteq> 0 \<and> p + spans h1 p = head0 r)" using mr_alt by simp
    then show ?thesis
      unfolding h2_def merge_next_fields(1) [OF pm] r'_def using False by auto
  qed
  have h0r': "head0 r' \<noteq> 0 \<longleftrightarrow> r' \<noteq> []"
  proof -
    have "set (tl r) \<subseteq> set r" by (cases r) auto
    then have "0 \<notin> set r'" using nr by (auto simp: r'_def)
    then show ?thesis by (simp add: head0_null)
  qed
  have pv2: "prevs h2 = (if r' = [] then prevs h1 else (prevs h1)(head0 r' := p))"
  proof (cases "r = []")
    case True
    then show ?thesis
      unfolding h2_def merge_next_fields(2) [OF pm] r'_def using mr_ne by auto
  next
    case False
    then have hr: "head0 r \<noteq> 0" using nr by (simp add: head0_null)
    show ?thesis
    proof (cases mr)
      case True
      then show ?thesis
        unfolding h2_def merge_next_fields(2) [OF pm]
        using hr mr_alt nxr [OF False] h0r' False by (auto simp: r'_def head0_hd)
    next
      case nmr: False
      then show ?thesis
        unfolding h2_def merge_next_fields(2) [OF pm]
        using hr mr_alt False by (auto simp: r'_def)
    qed
  qed
  have sa: "span_after h p fs = spans h p + (if mr then spans h (hd r) else 0)"
    by (simp add: span_after_def mr_def r_def)
  have mr_cond: "(head0 r \<noteq> 0 \<and> p + spans h1 p = head0 r) = mr"
    using mr_alt by simp
  have t2: "spans h2 = (spans h)(p := span_after h p fs)"
  proof (cases mr)
    case True
    then have "head0 r = hd r" using mr_ne by (simp add: head0_hd)
    with True show ?thesis
      unfolding h2_def merge_next_fields(3) [OF pm] mr_cond by (simp add: t1 sa)
  next
    case False
    then show ?thesis
      unfolding h2_def merge_next_fields(3) [OF pm] mr_cond by (simp add: t1 sa)
  qed
  have s2: "sizes h2 = (if mr then (sizes h)(p := span_after h p fs - BSENDDATA_HEADER_TRUE_SIZE pf)
                        else sizes h)"
  proof (cases mr)
    case True
    then have "head0 r = hd r" using mr_ne by (simp add: head0_hd)
    with True show ?thesis
      unfolding h2_def merge_next_fields(4) [OF pm] mr_cond by (simp add: t1 s1 sa)
  next
    case False
    then show ?thesis
      unfolding h2_def merge_next_fields(4) [OF pm] mr_cond by (simp add: t1 s1 sa)
  qed
  define bh3 where "bh3 = free_segment_merge_prev pf b1 h2 p (last0 l)"
  define b3 where "b3 = fst bh3"
  define h3 where "h3 = snd bh3"
  have res: "MPIR_Bsend_free_segment pf b h p = Some (b3, h3)"
    by (simp add: MPIR_Bsend_free_segment_def u walk h2_def bh3_def b3_def h3_def)
  have l0: "last0 l \<noteq> 0 \<longleftrightarrow> l \<noteq> []" using nl by (simp add: last0_null)
  have ml_cond: "(last0 l \<noteq> 0 \<and> last0 l + spans h2 (last0 l) = p) = ml"
  proof (cases "l = []")
    case True
    then show ?thesis using ml_ne by auto
  next
    case False
    then have "last0 l = last l" by (simp add: last0_last)
    moreover have "last l \<noteq> p" using pq False by (simp add: last0_last)
    moreover have "last l \<noteq> 0" using l0 False by (simp add: last0_last)
    ultimately show ?thesis
      using False by (simp add: ml_def merges_left_def l_def [symmetric] t2)
  qed
  have b3_eq: "b3 = (if l = [] then b1\<lparr>avail := p\<rparr> else b1)"
    unfolding b3_def bh3_def merge_prev_fields(1) [OF pq] using l0 by auto
  have q_eq: "l \<noteq> [] \<Longrightarrow> last0 l = last l" by (simp add: last0_last)
  have not_ml: "l = [] \<Longrightarrow> \<not> ml" using ml_ne by auto
  have nx3: "nexts h3 = (if l = [] then nexts h2
                          else (nexts h2)(last l := (if ml then nexts h2 p else p)))"
  proof (cases "l = []")
    case True
    then show ?thesis
      unfolding h3_def bh3_def merge_prev_fields(2) [OF pq] by simp
  next
    case False
    then have "last0 l \<noteq> 0" using l0 by simp
    moreover have "(last0 l + spans h2 (last0 l) = p) = ml" using ml_cond calculation by simp
    ultimately show ?thesis
      unfolding h3_def bh3_def merge_prev_fields(2) [OF pq] using False by (simp add: q_eq)
  qed
  have pv3: "prevs h3 = (if l = [] then (prevs h2)(p := 0)
                          else if ml then (if nexts h2 p \<noteq> 0
                                           then (prevs h2)(nexts h2 p := last l) else prevs h2)
                          else (prevs h2)(p := last l))"
  proof (cases "l = []")
    case True
    then show ?thesis
      unfolding h3_def bh3_def merge_prev_fields(3) [OF pq] by simp
  next
    case False
    then have "last0 l \<noteq> 0" using l0 by simp
    moreover have "(last0 l + spans h2 (last0 l) = p) = ml" using ml_cond calculation by simp
    ultimately show ?thesis
      unfolding h3_def bh3_def merge_prev_fields(3) [OF pq] using False by (simp add: q_eq)
  qed
  have t3: "spans h3 = (if ml then (spans h2)(last l := spans h2 (last l) + spans h2 p)
                         else spans h2)"
  proof (cases ml)
    case True
    then show ?thesis
      unfolding h3_def bh3_def merge_prev_fields(4) [OF pq] ml_cond
      using ml_ne by (simp add: q_eq)
  next
    case False
    then show ?thesis
      unfolding h3_def bh3_def merge_prev_fields(4) [OF pq] ml_cond by simp
  qed
  have s3: "sizes h3 = (if ml then (sizes h2)(last l := spans h2 (last l) + spans h2 p
                                       - BSENDDATA_HEADER_TRUE_SIZE pf)
                         else sizes h2)"
  proof (cases ml)
    case True
    then show ?thesis
      unfolding h3_def bh3_def merge_prev_fields(5) [OF pq] ml_cond
      using ml_ne by (simp add: q_eq)
  next
    case False
    then show ?thesis
      unfolding h3_def bh3_def merge_prev_fields(5) [OF pq] ml_cond by simp
  qed
  \<comment> \<open>the free list\<close>
  have ins: "path (nexts h3) (if l = [] then p else avail b) (l @ (if ml then [] else [p]) @ r') 0"
    "backlinks (prevs h3) 0 (l @ (if ml then [] else [p]) @ r')"
    using insert_free_lists [OF free1 freeb1 _ p0 mr_ne ml_ne r'_def nx2 pv2 nx3 pv3] pnf fs
    by simp_all
  have av3: "avail b3 = (if l = [] then p else avail b)"
    by (simp add: b3_eq b1_def)
  have fla: "free_list_after h p fs = l @ (if ml then [] else [p]) @ r'"
    by (simp add: free_list_after_def l_def r_def ml_def mr_def r'_def)
  have free3: "dlist h3 (avail b3) (free_list_after h p fs)"
    using ins by (simp add: dlist_def av3 fla)
  \<comment> \<open>the active list\<close>
  have sub_r': "set r' \<subseteq> set fs"
  proof -
    have "set (tl r) \<subseteq> set r" by (cases r) auto
    then show ?thesis by (auto simp: r'_def fs)
  qed
  have lastl: "l \<noteq> [] \<Longrightarrow> last l \<in> set fs" by (simp add: fs)
  have hr'in: "r' \<noteq> [] \<Longrightarrow> head0 r' \<in> set fs"
    using sub_r' by (cases r') auto
  have pn2: "p \<notin> set (as1 @ as2)" using da as by auto
  have sub_a: "set (as1 @ as2) \<subseteq> set as" by (auto simp: as)
  have act3: "path (nexts h3) (active b1) (as1 @ as2) 0"
  proof -
    have "path (nexts h3) (active b1) (as1 @ as2) 0 = path (nexts h1) (active b1) (as1 @ as2) 0"
    proof (rule path_frame)
      fix x assume x: "x \<in> set (as1 @ as2)"
      then have "x \<noteq> p" "x \<notin> set fs" using pn2 sub_a dj by auto
      then show "nexts h3 x = nexts h1 x"
        using lastl by (auto simp: nx3 nx2)
    qed
    with act1 show ?thesis by simp
  qed
  have actb3: "backlinks (prevs h3) 0 (as1 @ as2)"
  proof -
    have "backlinks (prevs h3) 0 (as1 @ as2) = backlinks (prevs h1) 0 (as1 @ as2)"
    proof (rule backlinks_frame)
      fix x assume x: "x \<in> set (as1 @ as2)"
      then have "x \<noteq> p" "x \<notin> set fs" using pn2 sub_a dj by auto
      then show "prevs h3 x = prevs h1 x"
        using hr'in h0r' by (auto simp: pv3 pv2 nx2)
    qed
    with actb1 show ?thesis by simp
  qed
  have act: "dlist h3 (active b3) (remove1 p as)"
    using act3 actb3 by (simp add: dlist_def rm b3_eq)
  have lp: "l \<noteq> [] \<Longrightarrow> last l \<noteq> p" using pq by (simp add: last0_last)
  have t_fin: "spans h3 = (let t2 = (spans h)(p := span_after h p fs) in
                    if merges_left h p fs
                    then t2(last (left_of p fs) :=
                              spans h (last (left_of p fs)) + span_after h p fs)
                    else t2)"
  proof (cases ml)
    case True
    with ml_ne lp have "last l \<noteq> p" by simp
    with True show ?thesis
      by (simp add: t3 t2 Let_def ml_def [symmetric] l_def [symmetric])
  next
    case False
    then show ?thesis
      by (simp add: t3 t2 Let_def ml_def [symmetric] l_def [symmetric])
  qed
  have s_fin: "sizes h3 = (let s2 = (if merges_right h p fs
                              then (sizes h)(p := span_after h p fs - BSENDDATA_HEADER_TRUE_SIZE pf)
                              else sizes h) in
                    if merges_left h p fs
                    then s2(last (left_of p fs) :=
                              spans h (last (left_of p fs)) + span_after h p fs
                                - BSENDDATA_HEADER_TRUE_SIZE pf)
                    else s2)"
  proof (cases ml)
    case True
    with ml_ne lp have "last l \<noteq> p" by simp
    with True show ?thesis
      by (simp add: s3 s2 t2 Let_def ml_def [symmetric] mr_def [symmetric] l_def [symmetric])
  next
    case False
    then show ?thesis
      by (simp add: s3 s2 t2 Let_def ml_def [symmetric] mr_def [symmetric] l_def [symmetric])
  qed
  have rest: "buffer b3 = buffer b \<and> buffer_size b3 = buffer_size b
     \<and> origbuffer b3 = origbuffer b \<and> origbuffer_size b3 = origbuffer_size b"
    by (simp add: b3_eq b1_def)
  show ?thesis
    using res free3 act t_fin s_fin rest by blast
qed

lemma no_adjacent_append:
  "no_adjacent t (xs @ ys) \<longleftrightarrow>
     no_adjacent t xs \<and> no_adjacent t ys
     \<and> (xs \<noteq> [] \<and> ys \<noteq> [] \<longrightarrow> last xs + t (last xs) \<noteq> hd ys)"
proof (induction t xs rule: no_adjacent.induct)
  case (1 t x y ys)
  then show ?case by auto
next
  case (2 t x)
  then show ?case by (cases ys) auto
next
  case (3 t)
  then show ?case by simp
qed

lemma no_adjacent_frame:
  "(\<And>x. x \<in> set (butlast xs) \<Longrightarrow> t' x = t x) \<Longrightarrow> no_adjacent t' xs = no_adjacent t xs"
proof (induction t xs rule: no_adjacent.induct)
  case (1 t x y ys)
  then show ?case by auto
qed simp_all

lemma no_adjacent_tl: "no_adjacent t xs \<Longrightarrow> no_adjacent t (tl xs)"
  by (induction t xs rule: no_adjacent.induct) auto

lemma no_adjacent_hd_tl:
  "no_adjacent t xs \<Longrightarrow> xs \<noteq> [] \<Longrightarrow> tl xs \<noteq> [] \<Longrightarrow> hd xs + t (hd xs) \<noteq> hd (tl xs)"
  by (induction t xs rule: no_adjacent.induct) auto

lemma left_right_of:
  shows left_right_id: "left_of p fs @ right_of p fs = fs"
    and left_of_le: "x \<in> set (left_of p fs) \<Longrightarrow> x \<le> p"
    and right_of_hd: "right_of p fs \<noteq> [] \<Longrightarrow> p < hd (right_of p fs)"
proof -
  show "left_of p fs @ right_of p fs = fs" by (simp add: left_of_def right_of_def)
  show "x \<in> set (left_of p fs) \<Longrightarrow> x \<le> p"
    unfolding left_of_def by (auto dest: set_takeWhileD)
  show "right_of p fs \<noteq> [] \<Longrightarrow> p < hd (right_of p fs)"
    unfolding right_of_def using hd_dropWhile [of "\<lambda>x. x \<le> p" fs] by auto
qed

lemma sorted_free_list_after:
  assumes s: "sorted_wrt (<) fs" and pn: "p \<notin> set fs"
  shows "sorted_wrt (<) (free_list_after h p fs)"
proof -
  define l where "l = left_of p fs"
  define r where "r = right_of p fs"
  have fs: "fs = l @ r" by (simp add: l_def r_def left_right_id)
  have sl: "sorted_wrt (<) l" and sr: "sorted_wrt (<) r"
    and lr: "\<And>x y. x \<in> set l \<Longrightarrow> y \<in> set r \<Longrightarrow> x < y"
    using s by (auto simp: fs sorted_wrt_append)
  have lp: "\<And>x. x \<in> set l \<Longrightarrow> x < p"
  proof -
    fix x assume x: "x \<in> set l"
    then have "x \<le> p" by (simp add: l_def left_of_le)
    moreover have "x \<noteq> p" using x pn fs by auto
    ultimately show "x < p" by simp
  qed
  have pr: "\<And>y. y \<in> set r \<Longrightarrow> p < y"
  proof -
    fix y assume y: "y \<in> set r"
    then have ne: "r \<noteq> []" by auto
    then have h: "p < hd r" by (simp add: r_def right_of_hd)
    from ne obtain z zs where r: "r = z # zs" by (cases r) auto
    with sr y h show "p < y" by auto
  qed
  have tl_sub: "set (tl r) \<subseteq> set r" by (cases r) auto
  have str: "sorted_wrt (<) (tl r)" using sr by (cases r) auto
  show ?thesis
    unfolding free_list_after_def l_def [symmetric] r_def [symmetric]
    using sl sr str lr lp pr tl_sub by (auto simp: sorted_wrt_append)
qed

lemma no_adjacent_free_list_after:
  assumes adj: "no_adjacent (spans h) fs" and pn: "p \<notin> set fs" and d: "distinct fs"
    and t': "t' = (let t2 = (spans h)(p := span_after h p fs) in
                    if merges_left h p fs
                    then t2(last (left_of p fs) :=
                              spans h (last (left_of p fs)) + span_after h p fs)
                    else t2)"
  shows "no_adjacent t' (free_list_after h p fs)"
proof -
  define t where "t = spans h"
  define l where "l = left_of p fs"
  define r where "r = right_of p fs"
  define mr where "mr = merges_right h p fs"
  define ml where "ml = merges_left h p fs"
  define r' where "r' = (if mr then tl r else r)"
  define sa where "sa = span_after h p fs"
  have fs: "fs = l @ r" by (simp add: l_def r_def left_right_id)
  have mr_iff: "mr \<longleftrightarrow> r \<noteq> [] \<and> p + t p = hd r"
    by (simp add: mr_def merges_right_def r_def t_def)
  have ml_iff: "ml \<longleftrightarrow> l \<noteq> [] \<and> last l + t (last l) = p"
    by (simp add: ml_def merges_left_def l_def t_def)
  have sa_eq: "sa = t p + (if mr then t (hd r) else 0)"
    by (simp add: sa_def span_after_def mr_def r_def t_def)
  have t'_eq: "t' = (if ml then (t(p := sa))(last l := t (last l) + sa) else t(p := sa))"
    by (simp add: t' Let_def ml_def l_def sa_def t_def)
  have al: "no_adjacent t l" and ar: "no_adjacent t r"
    and alr: "l \<noteq> [] \<Longrightarrow> r \<noteq> [] \<Longrightarrow> last l + t (last l) \<noteq> hd r"
    using adj by (simp_all add: fs no_adjacent_append t_def)
  have pnl: "p \<notin> set l" and pnr: "p \<notin> set r" using pn fs by auto
  have tl_sub: "set (tl r) \<subseteq> set r" by (cases r) auto
  have sub: "set r' \<subseteq> set r" using tl_sub by (auto simp: r'_def)
  have pnr': "p \<notin> set r'" using pnr sub by auto
  have dl: "distinct l" and dlr: "set l \<inter> set r = {}" using d fs by auto
  have bl: "\<And>x. x \<in> set (butlast l) \<Longrightarrow> x \<noteq> last l \<and> x \<noteq> p"
  proof -
    fix x assume x: "x \<in> set (butlast l)"
    then have ne: "l \<noteq> []" by auto
    then have "l = butlast l @ [last l]" by simp
    then have "distinct (butlast l @ [last l])" using dl by simp
    then have "x \<noteq> last l" using x by auto
    moreover have "x \<in> set l" using x by (rule in_set_butlastD)
    ultimately show "x \<noteq> last l \<and> x \<noteq> p" using pnl by auto
  qed
  have lastl: "l \<noteq> [] \<Longrightarrow> last l \<in> set l" by simp
  have A: "no_adjacent t' l"
  proof -
    have "no_adjacent t' l = no_adjacent t l"
      by (rule no_adjacent_frame) (use bl in \<open>auto simp: t'_eq\<close>)
    with al show ?thesis by simp
  qed
  have ar': "no_adjacent t r'" using ar by (auto simp: r'_def no_adjacent_tl)
  have B: "no_adjacent t' r'"
  proof -
    have "no_adjacent t' r' = no_adjacent t r'"
    proof (rule no_adjacent_frame)
      fix x assume "x \<in> set (butlast r')"
      then have xr': "x \<in> set r'" by (rule in_set_butlastD)
      then have xr: "x \<in> set r" using sub by auto
      have "x \<noteq> p" using xr' pnr' by auto
      moreover have "l \<noteq> [] \<Longrightarrow> x \<noteq> last l"
      proof
        assume "l \<noteq> []" "x = last l"
        then have "x \<in> set l" by simp
        with xr dlr show False by auto
      qed
      ultimately have "x \<noteq> p" "l \<noteq> [] \<Longrightarrow> x \<noteq> last l" by simp_all
      then show "t' x = t x" using ml_iff by (auto simp: t'_eq)
    qed
    with ar' show ?thesis by simp
  qed
  have end_p: "r' \<noteq> [] \<Longrightarrow> p + sa \<noteq> hd r'"
  proof (cases mr)
    case True
    assume ne: "r' \<noteq> []"
    with True have "tl r \<noteq> []" by (simp add: r'_def)
    moreover have "r \<noteq> []" using True mr_iff by simp
    ultimately have "hd r + t (hd r) \<noteq> hd (tl r)" using ar by (simp add: no_adjacent_hd_tl)
    moreover have "p + t p = hd r" using True mr_iff by simp
    ultimately show ?thesis using True by (simp add: sa_eq r'_def)
  next
    case False
    assume ne: "r' \<noteq> []"
    with False have "r \<noteq> []" by (simp add: r'_def)
    with False have "p + t p \<noteq> hd r" using mr_iff by simp
    with False show ?thesis by (simp add: sa_eq r'_def)
  qed
  have fla: "free_list_after h p fs = l @ (if ml then [] else [p]) @ r'"
    by (simp add: free_list_after_def l_def r_def ml_def mr_def r'_def)
  show ?thesis
  proof (cases ml)
    case True
    then have ne: "l \<noteq> []" and adjl: "last l + t (last l) = p" using ml_iff by simp_all
    have "t' (last l) = t (last l) + sa" using True by (simp add: t'_eq)
    then have "r' \<noteq> [] \<Longrightarrow> last l + t' (last l) \<noteq> hd r'"
      using end_p adjl by (simp add: add.assoc [symmetric])
    with A B True ne show ?thesis by (simp add: fla no_adjacent_append)
  next
    case False
    have tl_: "l \<noteq> [] \<Longrightarrow> t' (last l) = t (last l)"
      using False pnl lastl by (auto simp: t'_eq)
    have tp: "t' p = sa" using False by (simp add: t'_eq)
    have j1: "l \<noteq> [] \<Longrightarrow> last l + t' (last l) \<noteq> p"
      using False ml_iff tl_ by simp
    have j2: "r' \<noteq> [] \<Longrightarrow> p + t' p \<noteq> hd r'" using end_p tp by simp
    have "no_adjacent t' (p # r')"
      using B j2 by (cases r') auto
    then have "no_adjacent t' (l @ p # r')"
      using A j1 by (simp add: no_adjacent_append)
    with False show ?thesis by (simp add: fla)
  qed
qed

text \<open>
  C5. For every block \<open>p\<close> of the active list released into a free list that is in
  address order and has no two adjacent blocks, the call returns and the free list is
  again in address order with no two adjacent blocks. The list is the blocks to the left
  of \<open>p\<close>, then \<open>p\<close> unless its left neighbour ends where \<open>p\<close> begins, then the blocks to
  the right without the first of them if \<open>p\<close> ends where that one begins. The span of
  \<open>p\<close> grows by the span of an absorbed right neighbour, the span of an absorbing left
  neighbour by the span of \<open>p\<close>, and after each merge the payload capacity of the merged
  block is its span minus the header. All other spans and capacities stay.
\<close>

theorem free_segment_keeps_invariants:
  assumes fl: "dlist h (avail b) fs" and al: "dlist h (active b) as"
    and p: "p \<in> set as" and dj: "set fs \<inter> set as = {}"
    and so: "sorted_wrt (<) fs" and adj: "no_adjacent (spans h) fs"
  shows "\<exists>b' h'. MPIR_Bsend_free_segment pf b h p = Some (b', h')
     \<and> dlist h' (avail b') (free_list_after h p fs)
     \<and> sorted_wrt (<) (free_list_after h p fs)
     \<and> no_adjacent (spans h') (free_list_after h p fs)
     \<and> dlist h' (active b') (remove1 p as)
     \<and> spans h' = (let t2 = (spans h)(p := span_after h p fs) in
                    if merges_left h p fs
                    then t2(last (left_of p fs) :=
                              spans h (last (left_of p fs)) + span_after h p fs)
                    else t2)
     \<and> sizes h' = (let s2 = (if merges_right h p fs
                              then (sizes h)(p := span_after h p fs - BSENDDATA_HEADER_TRUE_SIZE pf)
                              else sizes h) in
                    if merges_left h p fs
                    then s2(last (left_of p fs) :=
                              spans h (last (left_of p fs)) + span_after h p fs
                                - BSENDDATA_HEADER_TRUE_SIZE pf)
                    else s2)"
proof -
  from free_segment_lists [OF fl al p dj, of pf] obtain b' h' where
    r: "MPIR_Bsend_free_segment pf b h p = Some (b', h')"
    and f: "dlist h' (avail b') (free_list_after h p fs)"
    and a: "dlist h' (active b') (remove1 p as)"
    and t: "spans h' = (let t2 = (spans h)(p := span_after h p fs) in
                    if merges_left h p fs
                    then t2(last (left_of p fs) :=
                              spans h (last (left_of p fs)) + span_after h p fs)
                    else t2)"
    and s: "sizes h' = (let s2 = (if merges_right h p fs
                              then (sizes h)(p := span_after h p fs - BSENDDATA_HEADER_TRUE_SIZE pf)
                              else sizes h) in
                    if merges_left h p fs
                    then s2(last (left_of p fs) :=
                              spans h (last (left_of p fs)) + span_after h p fs
                                - BSENDDATA_HEADER_TRUE_SIZE pf)
                    else s2)"
    by blast
  have pn: "p \<notin> set fs" using p dj by auto
  have d: "distinct fs" using fl by (rule dlist_distinct)
  have "sorted_wrt (<) (free_list_after h p fs)"
    using so pn by (rule sorted_free_list_after)
  moreover have "no_adjacent (spans h') (free_list_after h p fs)"
    using adj pn d t by (rule no_adjacent_free_list_after)
  ultimately show ?thesis using r f a t s by blast
qed

lemma heap3_fields [simp]:
  "nexts heap3 4096 = 0" "nexts heap3 4272 = 4624" "nexts heap3 4448 = 4096"
  "nexts heap3 4624 = 0"
  "prevs heap3 4096 = 4448" "prevs heap3 4272 = 0" "prevs heap3 4448 = 0"
  "prevs heap3 4624 = 4272"
  "spans heap3 4096 = 176" "spans heap3 4272 = 176" "spans heap3 4448 = 176"
  "spans heap3 4624 = 496"
  "sizes heap3 4096 = 112" "sizes heap3 4272 = 112" "sizes heap3 4448 = 112"
  "sizes heap3 4624 = 432"
  by (simp_all add: nexts_def prevs_def spans_def sizes_def heap3_def)

lemma heap3_lists:
  "dlist heap3 (avail arena3) [4272, 4624]" "dlist heap3 (active arena3) [4448, 4096]"
  by (simp_all add: dlist_def arena3_def)

text \<open>Releasing the block at 4448 merges it with both neighbours: the free list is the
  one block at 4272 with the span 176 + 176 + 496.\<close>

theorem free_segment_keeps_invariants_witness:
  "dlist heap3 (avail arena3) [4272, 4624] \<and> dlist heap3 (active arena3) [4448, 4096]
   \<and> sorted_wrt (<) [4272, 4624 :: nat] \<and> no_adjacent (spans heap3) [4272, 4624]
   \<and> (\<exists>b' h'. MPIR_Bsend_free_segment scenario_platform arena3 heap3 4448 = Some (b', h')
        \<and> dlist h' (avail b') [4272] \<and> dlist h' (active b') [4096]
        \<and> spans h' 4272 = 848 \<and> sizes h' 4272 = 784)"
proof -
  have l: "left_of 4448 [4272, 4624] = [4272]" and r: "right_of 4448 [4272, 4624] = [4624]"
    by (simp_all add: left_of_def right_of_def)
  have mr: "merges_right heap3 4448 [4272, 4624]" and ml: "merges_left heap3 4448 [4272, 4624]"
    by (simp_all add: merges_right_def merges_left_def l r)
  have fla: "free_list_after heap3 4448 [4272, 4624] = [4272]"
    by (simp add: free_list_after_def l r mr ml)
  have sa: "span_after heap3 4448 [4272, 4624] = 672"
    by (simp add: span_after_def mr r)
  have pre: "sorted_wrt (<) [4272, 4624 :: nat]" "no_adjacent (spans heap3) [4272, 4624]"
    "(4448 :: nat) \<in> set [4448, 4096]" "set [4272, 4624 :: nat] \<inter> set [4448, 4096] = {}"
    by simp_all
  from free_segment_keeps_invariants
         [OF heap3_lists pre(3) pre(4) pre(1) pre(2), of scenario_platform]
  show ?thesis
    using heap3_lists pre(1,2) by (auto simp: fla sa l ml mr Let_def)
qed

subsection \<open>Take\<close>

lemma split_fields:
  assumes "q = p + BSENDDATA_HEADER_TRUE_SIZE pf + a" and "q \<noteq> p"
  shows
  "nexts (take_buffer_split pf h p a) = (nexts h)(q := nexts h p, p := q)"
  "prevs (take_buffer_split pf h p a) =
     (if nexts h p \<noteq> 0 then (prevs h)(q := p, nexts h p := q) else (prevs h)(q := p))"
  "spans (take_buffer_split pf h p a) =
     (spans h)(q := spans h p - a - BSENDDATA_HEADER_TRUE_SIZE pf, p := q - p)"
  "sizes (take_buffer_split pf h p a) =
     (sizes h)(q := spans h p - a - BSENDDATA_HEADER_TRUE_SIZE pf - BSENDDATA_HEADER_TRUE_SIZE pf,
               p := q - p - BSENDDATA_HEADER_TRUE_SIZE pf)"
  using assms by (simp_all add: take_buffer_split_def Let_def field_reads)

lemma move_fields:
  assumes "prevs h p \<noteq> p"
  shows
  "fst (take_buffer_move b h p) =
     b\<lparr>avail := (if prevs h p \<noteq> 0 then avail b else nexts h p), active := p\<rparr>"
  "nexts (snd (take_buffer_move b h p)) =
     (if prevs h p \<noteq> 0 then (nexts h)(prevs h p := nexts h p) else nexts h)(p := active b)"
  "prevs (snd (take_buffer_move b h p)) =
     (let pv1 = (if nexts h p \<noteq> 0 then (prevs h)(nexts h p := prevs h p) else prevs h);
          pv2 = (if active b \<noteq> 0 then pv1(active b := p) else pv1)
      in pv2(p := 0))"
  "spans (snd (take_buffer_move b h p)) = spans h"
  "sizes (snd (take_buffer_move b h p)) = sizes h"
  using assms by (simp_all add: take_buffer_move_def Let_def field_reads)

text \<open>A new block \<open>q\<close> linked behind \<open>p\<close>.\<close>

lemma insert_after_lists:
  fixes nx pv :: "addr \<Rightarrow> addr"
  assumes pa: "path nx a (l @ p # r) 0" and ba: "backlinks pv prv (l @ p # r)"
    and qn: "q \<notin> set (l @ p # r)" and q0: "q \<noteq> 0"
  shows "path (nx(q := nx p, p := q)) a (l @ p # q # r) 0"
    and "backlinks (if nx p \<noteq> 0 then pv(q := p, nx p := q) else pv(q := p)) prv (l @ p # q # r)"
proof -
  have d: "distinct (l @ p # r)" and nn: "0 \<notin> set (l @ p # r)"
    using path_distinct [OF pa] path_nonnull [OF pa] by simp_all
  note m = path_mid [OF pa]
  note k = backlinks_mid [OF ba]
  have pl: "p \<notin> set l" and pr: "p \<notin> set r" and ql: "q \<notin> set l" and qr: "q \<notin> set r"
    and qp: "q \<noteq> p" and p0: "p \<noteq> 0"
    using d nn qn by auto
  have "path (nx(q := nx p, p := q)) a l p" using m(2) pl ql by simp
  moreover have "path (nx(q := nx p, p := q)) (nx p) r 0" using m(3) pr qr by simp
  ultimately show "path (nx(q := nx p, p := q)) a (l @ p # q # r) 0"
    using qp q0 p0 by (simp add: path_append)
  show "backlinks (if nx p \<noteq> 0 then pv(q := p, nx p := q) else pv(q := p)) prv (l @ p # q # r)"
  proof (cases r)
    case Nil
    then have "nx p = 0" using m(1) by simp
    with Nil k pl ql qp show ?thesis by (simp add: backlinks_append)
  next
    case (Cons y ys)
    then have np: "nx p = y" using m(1) by simp
    have y: "y \<noteq> 0" "y \<notin> set l" "y \<noteq> p" "y \<noteq> q" "y \<notin> set ys"
      using d nn qn Cons by auto
    have "backlinks (pv(q := p, y := q)) prv l" using k(2) ql y by simp
    moreover have "backlinks (pv(q := p, y := q)) y ys"
      using k(3) qr y Cons by simp
    ultimately show ?thesis
      using np y Cons k(1) pl qp by (simp add: backlinks_append)
  qed
qed

text \<open>A block \<open>p\<close> put in front of a list.\<close>

lemma push_lists:
  fixes nx pv :: "addr \<Rightarrow> addr"
  assumes pa: "path nx a as 0" and ba: "backlinks pv 0 as"
    and pn: "p \<notin> set as" and p0: "p \<noteq> 0"
    and nx': "\<And>x. x \<in> set as \<Longrightarrow> nx' x = nx x" and nxp: "nx' p = a"
    and pv': "\<And>x. x \<in> set (tl as) \<Longrightarrow> pv' x = pv x"
    and pvh: "as \<noteq> [] \<Longrightarrow> pv' (hd as) = p" and pvp: "pv' p = 0"
  shows "path nx' p (p # as) 0" and "backlinks pv' 0 (p # as)"
proof -
  have "path nx' a as 0 = path nx a as 0" by (rule path_frame) (rule nx')
  with pa nxp p0 show "path nx' p (p # as) 0" by simp
  show "backlinks pv' 0 (p # as)"
  proof (cases as)
    case Nil
    with pvp show ?thesis by simp
  next
    case (Cons y ys)
    have "backlinks pv' y ys = backlinks pv y ys"
      by (rule backlinks_frame) (simp add: pv' Cons)
    with ba Cons pvh pvp show ?thesis by simp
  qed
qed

lemma replace_block:
  assumes "distinct (l @ p # r)"
  shows "map (\<lambda>x. if x = p then q else x) (l @ p # r) = l @ q # r"
    and "remove1 p (l @ p # r) = l @ r"
proof -
  have "p \<notin> set l" "p \<notin> set r" using assms by auto
  then have "map (\<lambda>x. if x = p then q else x) l = l"
    "map (\<lambda>x. if x = p then q else x) r = r"
    by (auto intro: map_idI)
  then show "map (\<lambda>x. if x = p then q else x) (l @ p # r) = l @ q # r"
    by simp
  show "remove1 p (l @ p # r) = l @ r"
    using \<open>p \<notin> set l\<close> by (simp add: remove1_append)
qed

lemma take_buffer_lists:
  assumes fl: "dlist h (avail b) fs" and al: "dlist h (active b) as"
    and dj: "set fs \<inter> set as = {}" and p: "p \<in> set fs"
    and a: "a = take_alloc_size pf n" and q: "q = p + BSENDDATA_HEADER_TRUE_SIZE pf + a"
    and split: "split \<longleftrightarrow> a + BSENDDATA_HEADER_TRUE_SIZE pf + MIN_BUFFER_BLOCK \<le> sizes h p"
    and fresh: "split \<Longrightarrow> q \<notin> set fs \<union> set as \<and> q \<noteq> 0"
  shows "\<exists>b' h'. MPIR_Bsend_take_buffer pf b h p n = (b', h')
     \<and> dlist h' (avail b') (if split then map (\<lambda>x. if x = p then q else x) fs else remove1 p fs)
     \<and> dlist h' (active b') (p # as)
     \<and> spans h' = (if split
                    then (spans h)(q := spans h p - a - BSENDDATA_HEADER_TRUE_SIZE pf, p := q - p)
                    else spans h)
     \<and> sizes h' = (if split
                    then (sizes h)
                      (q := spans h p - a - BSENDDATA_HEADER_TRUE_SIZE pf
                              - BSENDDATA_HEADER_TRUE_SIZE pf,
                       p := q - p - BSENDDATA_HEADER_TRUE_SIZE pf)
                    else sizes h)
     \<and> buffer b' = buffer b \<and> buffer_size b' = buffer_size b
     \<and> origbuffer b' = origbuffer b \<and> origbuffer_size b' = origbuffer_size b"
proof -
  from p obtain l r where fs: "fs = l @ p # r" using split_list by fastforce
  have df: "distinct fs" and nf: "0 \<notin> set fs" and da: "distinct as" and na: "0 \<notin> set as"
    using fl al by (auto dest: dlist_distinct dlist_nonnull)
  have pl: "p \<notin> set l" and pr: "p \<notin> set r" using df fs by auto
  have p0: "p \<noteq> 0"
  proof
    assume "p = 0"
    with nf p show False by simp
  qed
  have pna: "p \<notin> set as" using dj p by auto
  from fl have pf0: "path (nexts h) (avail b) (l @ p # r) 0"
    and bf0: "backlinks (prevs h) 0 (l @ p # r)" by (simp_all add: dlist_def fs)
  from al have pa0: "path (nexts h) (active b) as 0" and ba0: "backlinks (prevs h) 0 as"
    by (simp_all add: dlist_def)
  have nxp: "nexts h p = head0 r" using path_mid(1) [OF pf0] .
  have r_in: "head0 r \<noteq> 0 \<Longrightarrow> head0 r \<in> set fs" by (cases r) (auto simp: fs)
  \<comment> \<open>the split\<close>
  define hs where "hs = (if split then take_buffer_split pf h p a else h)"
  define rs where "rs = (if split then q # r else r)"
  have qf: "split \<Longrightarrow> q \<notin> set (l @ p # r)" and qa: "split \<Longrightarrow> q \<notin> set as"
    and q0: "split \<Longrightarrow> q \<noteq> 0" and qp: "split \<Longrightarrow> q \<noteq> p"
    using fresh fs by auto
  have nxs: "nexts hs = (if split then (nexts h)(q := nexts h p, p := q) else nexts h)"
    and pvs: "prevs hs = (if split
                 then (if nexts h p \<noteq> 0 then (prevs h)(q := p, nexts h p := q)
                       else (prevs h)(q := p))
                 else prevs h)"
    and ts: "spans hs = (if split
                    then (spans h)(q := spans h p - a - BSENDDATA_HEADER_TRUE_SIZE pf, p := q - p)
                    else spans h)"
    and ss: "sizes hs = (if split
                    then (sizes h)
                      (q := spans h p - a - BSENDDATA_HEADER_TRUE_SIZE pf
                              - BSENDDATA_HEADER_TRUE_SIZE pf,
                       p := q - p - BSENDDATA_HEADER_TRUE_SIZE pf)
                    else sizes h)"
    using split_fields [OF q, of h] qp by (simp_all add: hs_def)
  have fs_s: "path (nexts hs) (avail b) (l @ p # rs) 0"
    "backlinks (prevs hs) 0 (l @ p # rs)"
  proof -
    show "path (nexts hs) (avail b) (l @ p # rs) 0"
    proof (cases split)
      case True
      with insert_after_lists(1) [OF pf0 bf0 qf q0] show ?thesis
        by (simp add: nxs rs_def)
    next
      case False
      with pf0 show ?thesis by (simp add: nxs rs_def)
    qed
    show "backlinks (prevs hs) 0 (l @ p # rs)"
    proof (cases split)
      case True
      with insert_after_lists(2) [OF pf0 bf0 qf q0] show ?thesis
        by (simp add: pvs rs_def)
    next
      case False
      with bf0 show ?thesis by (simp add: pvs rs_def)
    qed
  qed
  have as_s: "path (nexts hs) (active b) as 0" "backlinks (prevs hs) 0 as"
  proof -
    have "path (nexts hs) (active b) as 0 = path (nexts h) (active b) as 0"
    proof (rule path_frame)
      fix x assume "x \<in> set as"
      then have "x \<noteq> p" "split \<Longrightarrow> x \<noteq> q" using pna qa by auto
      then show "nexts hs x = nexts h x" by (simp add: nxs)
    qed
    with pa0 show "path (nexts hs) (active b) as 0" by simp
    have "backlinks (prevs hs) 0 as = backlinks (prevs h) 0 as"
    proof (rule backlinks_frame)
      fix x assume x: "x \<in> set as"
      then have "split \<Longrightarrow> x \<noteq> q" "x \<notin> set fs" using qa dj by auto
      moreover have "nexts h p \<noteq> 0 \<Longrightarrow> x \<noteq> nexts h p"
        using r_in nxp \<open>x \<notin> set fs\<close> by auto
      ultimately show "prevs hs x = prevs h x" by (simp add: pvs)
    qed
    with ba0 show "backlinks (prevs hs) 0 as" by simp
  qed
  \<comment> \<open>the move to the active list\<close>
  have pvp: "prevs hs p = last0 l"
    using backlinks_mid(1) [OF fs_s(2)] by (simp add: last0_def)
  have nxps: "nexts hs p = head0 rs" using path_mid(1) [OF fs_s(1)] .
  have ds: "distinct (l @ p # rs)" and ns: "0 \<notin> set (l @ p # rs)"
    using path_distinct [OF fs_s(1)] path_nonnull [OF fs_s(1)] by simp_all
  have l_in: "last0 l \<noteq> 0 \<Longrightarrow> last0 l \<in> set l"
    by (cases l rule: rev_cases) auto
  have pq: "prevs hs p \<noteq> p" using pvp l_in pl p0 by (cases "last0 l = 0") auto
  define bm where "bm = fst (take_buffer_move b hs p)"
  define hm where "hm = snd (take_buffer_move b hs p)"
  have res: "MPIR_Bsend_take_buffer pf b h p n = (bm, hm)"
    by (simp add: MPIR_Bsend_take_buffer_def Let_def a [symmetric] split [symmetric]
          hs_def bm_def hm_def field_reads)
  note mf = move_fields [OF pq, of b]
  have bm_eq: "bm = b\<lparr>avail := (if last0 l \<noteq> 0 then avail b else head0 rs), active := p\<rparr>"
    unfolding bm_def mf(1) by (simp add: pvp nxps)
  define nx1 where "nx1 = (if last0 l \<noteq> 0 then (nexts hs)(last0 l := nexts hs p) else nexts hs)"
  define pv1 where "pv1 = (if head0 rs \<noteq> 0 then (prevs hs)(head0 rs := prevs hs p) else prevs hs)"
  have nxm: "nexts hm = nx1(p := active b)"
    unfolding hm_def mf(2) nx1_def by (simp add: pvp)
  have pvm: "prevs hm = (if active b \<noteq> 0 then pv1(active b := p) else pv1)(p := 0)"
    unfolding hm_def mf(3) pv1_def by (simp add: nxps Let_def)
  have tm: "spans hm = spans hs" and sm: "sizes hm = sizes hs"
    unfolding hm_def by (simp_all add: mf(4,5))
  have rs_sub: "set rs \<subseteq> insert q (set fs)" by (auto simp: rs_def fs)
  have rs_na: "\<And>x. x \<in> set rs \<Longrightarrow> x \<notin> set as"
    using dj qa by (auto simp: rs_def fs split: if_splits)
  have l_na: "\<And>x. x \<in> set l \<Longrightarrow> x \<notin> set as" using dj fs by auto
  have hrs_in: "head0 rs \<noteq> 0 \<Longrightarrow> head0 rs \<in> set rs" by (cases rs) auto
  have act_in: "active b \<noteq> 0 \<Longrightarrow> active b \<in> set as"
    using pa0 by (cases as) auto
  have free1: "path nx1 (avail bm) (l @ rs) 0"
    unfolding nx1_def using unlink_path [OF fs_s(1)]
    by (cases "last0 l = 0") (simp_all add: bm_eq nxps)
  have free1b: "backlinks pv1 0 (l @ rs)"
    unfolding pv1_def using unlink_backlinks [OF fs_s(2) ds] ns by simp
  have free_m: "dlist hm (avail bm) (l @ rs)"
  proof -
    have "p \<notin> set (l @ rs)" using ds by auto
    then have "path (nexts hm) (avail bm) (l @ rs) 0"
      using free1 path_upd [of p "l @ rs" nx1 "active b" "avail bm" 0] unfolding nxm by blast
    moreover have "backlinks (prevs hm) 0 (l @ rs) = backlinks pv1 0 (l @ rs)"
    proof (rule backlinks_frame)
      fix x assume x: "x \<in> set (l @ rs)"
      then have "x \<noteq> p" using ds by auto
      moreover have "x \<notin> set as" using x l_na rs_na by auto
      then have "active b \<noteq> 0 \<Longrightarrow> x \<noteq> active b" using act_in by auto
      ultimately show "prevs hm x = pv1 x" by (simp add: pvm)
    qed
    ultimately show ?thesis using free1b by (simp add: dlist_def)
  qed
  have act_m: "dlist hm (active bm) (p # as)"
  proof -
    have A: "\<And>x. x \<in> set as \<Longrightarrow> nexts hm x = nexts hs x"
    proof -
      fix x assume x: "x \<in> set as"
      then have "x \<noteq> p" using pna by auto
      moreover have "last0 l \<noteq> 0 \<Longrightarrow> x \<noteq> last0 l" using l_in l_na x by auto
      ultimately show "nexts hm x = nexts hs x" by (simp add: nxm nx1_def)
    qed
    have B: "nexts hm p = active b" by (simp add: nxm)
    have C: "\<And>x. x \<in> set (tl as) \<Longrightarrow> prevs hm x = prevs hs x"
    proof -
      fix x assume x: "x \<in> set (tl as)"
      then have xa: "x \<in> set as" by (cases as) auto
      then have "x \<noteq> p" using pna by auto
      moreover have "head0 rs \<noteq> 0 \<Longrightarrow> x \<noteq> head0 rs" using hrs_in rs_na xa by auto
      moreover have "x \<noteq> active b"
      proof -
        from x obtain y ys where as: "as = y # ys" by (cases as) auto
        with pa0 have "active b = y" by simp
        with da as x show ?thesis by auto
      qed
      ultimately show "prevs hm x = prevs hs x" by (simp add: pvm pv1_def)
    qed
    have D: "as \<noteq> [] \<Longrightarrow> prevs hm (hd as) = p"
    proof -
      assume "as \<noteq> []"
      then obtain y ys where as: "as = y # ys" by (cases as) auto
      with pa0 have "active b = y" "y \<noteq> 0" by simp_all
      moreover have "y \<noteq> p" using pna as by auto
      ultimately show ?thesis by (simp add: pvm as)
    qed
    have E: "prevs hm p = 0" by (simp add: pvm)
    from push_lists [OF as_s pna p0 A B C D E]
    show ?thesis by (simp add: dlist_def bm_eq)
  qed
  have lists: "(if split then map (\<lambda>x. if x = p then q else x) fs else remove1 p fs) = l @ rs"
    using replace_block(1) [of l p r q] replace_block(2) [of l p r] df by (simp add: fs rs_def)
  have rest: "buffer bm = buffer b \<and> buffer_size bm = buffer_size b
     \<and> origbuffer bm = origbuffer b \<and> origbuffer_size bm = origbuffer_size b"
    by (simp add: bm_eq)
  have tfin: "spans hm = (if split
                    then (spans h)(q := spans h p - a - BSENDDATA_HEADER_TRUE_SIZE pf, p := q - p)
                    else spans h)"
    using tm ts by simp
  have sfin: "sizes hm = (if split
                    then (sizes h)
                      (q := spans h p - a - BSENDDATA_HEADER_TRUE_SIZE pf
                              - BSENDDATA_HEADER_TRUE_SIZE pf,
                       p := q - p - BSENDDATA_HEADER_TRUE_SIZE pf)
                    else sizes h)"
    using sm ss by simp
  show ?thesis
    unfolding lists using res free_m act_m tfin sfin rest by blast
qed

lemma take_alloc_size_mod:
  assumes "MAX_ALIGNMENT pf = 2 ^ k"
  shows "take_alloc_size pf n =
     (if n mod 2 ^ k \<noteq> 0 then n + (2 ^ k - n mod 2 ^ k) else n)"
proof -
  have "n AND (2 ^ k - 1) = n mod 2 ^ k"
    by (simp add: take_bit_eq_mod [symmetric] take_bit_eq_mask mask_eq_exp_minus_1)
  then show ?thesis by (simp add: take_alloc_size_def assms)
qed

lemma take_alloc_size_round:
  assumes "MAX_ALIGNMENT pf = 2 ^ k"
  shows "MAX_ALIGNMENT pf dvd take_alloc_size pf n" and "n \<le> take_alloc_size pf n"
    and "take_alloc_size pf n < n + MAX_ALIGNMENT pf"
proof -
  let ?m = "(2::nat) ^ k"
  have m: "0 < ?m" by simp
  have lt: "n mod ?m < ?m" by simp
  show "MAX_ALIGNMENT pf dvd take_alloc_size pf n"
  proof (cases "n mod ?m = 0")
    case True
    then show ?thesis by (simp add: take_alloc_size_mod [OF assms] assms dvd_eq_mod_eq_0)
  next
    case False
    define d where "d = n div ?m"
    define e where "e = n mod ?m"
    have n: "n = ?m * d + e" by (simp add: d_def e_def)
    have "e < ?m" by (simp add: e_def)
    then have "n + (?m - e) = ?m * d + ?m" using n by linarith
    then have "n + (?m - e) = ?m * (d + 1)" by simp
    then have "?m dvd n + (?m - n mod ?m)" unfolding e_def by (metis dvd_triv_left)
    with False show ?thesis by (simp add: take_alloc_size_mod [OF assms] assms)
  qed
  have eq: "take_alloc_size pf n = (if n mod ?m \<noteq> 0 then n + (?m - n mod ?m) else n)"
    by (rule take_alloc_size_mod [OF assms])
  show "n \<le> take_alloc_size pf n"
  proof (cases "n mod ?m = 0")
    case True
    then show ?thesis unfolding eq by simp
  next
    case False
    have "n \<le> n + (?m - n mod ?m)" by (rule le_add1)
    with False show ?thesis unfolding eq by (simp only: if_True not_False_eq_True)
  qed
  show "take_alloc_size pf n < n + MAX_ALIGNMENT pf"
  proof (cases "n mod ?m = 0")
    case True
    then show ?thesis unfolding eq assms by simp
  next
    case False
    then have "0 < n mod ?m" by simp
    then have "n + (?m - n mod ?m) < n + ?m" using lt by linarith
    with False show ?thesis unfolding eq assms by (simp only: if_True not_False_eq_True)
  qed
qed

text \<open>
  C4. For every block \<open>p\<close> of the free list and request \<open>n\<close>, with \<open>a\<close> the request
  rounded up to a multiple of \<open>MAX_ALIGNMENT\<close> (a power of two): if
  \<open>a + header + 8 \<le> p.size\<close>, take splits \<open>p\<close>: a new free block \<open>q\<close> at
  \<open>p + header + a\<close> takes the place of \<open>p\<close> in the free list, with the span of \<open>p\<close> less
  \<open>header + a\<close> and a payload capacity of at least 8, and \<open>p\<close> shrinks to the span
  \<open>header + a\<close>; otherwise \<open>p\<close> leaves the free list with its span unchanged. In both
  cases \<open>p\<close> becomes the head of the active list. The arena is well formed, the payload
  capacity of \<open>p\<close> is its span minus the header, and no other block begins inside \<open>p\<close>.
\<close>

theorem take_buffer_split_or_whole:
  fixes pf :: platform and h :: heap and n p :: nat
  assumes fl: "dlist h (avail b) fs" and al: "dlist h (active b) as"
    and dj: "set fs \<inter> set as = {}" and p: "p \<in> set fs"
    and inv: "sizes h p = spans h p - BSENDDATA_HEADER_TRUE_SIZE pf"
             "BSENDDATA_HEADER_TRUE_SIZE pf \<le> spans h p"
    and hd_pos: "0 < BSENDDATA_HEADER_TRUE_SIZE pf"
    and pow: "MAX_ALIGNMENT pf = 2 ^ k"
    and layout: "\<forall>x \<in> set fs \<union> set as. \<not> (p < x \<and> x < p + spans h p)"
  defines "a \<equiv> take_alloc_size pf n"
  defines "q \<equiv> p + BSENDDATA_HEADER_TRUE_SIZE pf + a"
  defines "split \<equiv> a + BSENDDATA_HEADER_TRUE_SIZE pf + MIN_BUFFER_BLOCK \<le> sizes h p"
  shows "MAX_ALIGNMENT pf dvd a \<and> n \<le> a \<and> a < n + MAX_ALIGNMENT pf
    \<and> (\<exists>b' h'. MPIR_Bsend_take_buffer pf b h p n = (b', h')
          \<and> dlist h' (active b') (p # as)
          \<and> (split \<longrightarrow>
                dlist h' (avail b') (map (\<lambda>x. if x = p then q else x) fs)
                \<and> spans h' q = spans h p - (BSENDDATA_HEADER_TRUE_SIZE pf + a)
                \<and> spans h' p = BSENDDATA_HEADER_TRUE_SIZE pf + a
                \<and> sizes h' q = spans h' q - BSENDDATA_HEADER_TRUE_SIZE pf
                \<and> sizes h' p = spans h' p - BSENDDATA_HEADER_TRUE_SIZE pf
                \<and> 8 \<le> sizes h' q
                \<and> (\<forall>x. x \<noteq> p \<and> x \<noteq> q \<longrightarrow> spans h' x = spans h x \<and> sizes h' x = sizes h x))
          \<and> (\<not> split \<longrightarrow>
                dlist h' (avail b') (remove1 p fs) \<and> spans h' = spans h \<and> sizes h' = sizes h))"
proof -
  let ?H = "BSENDDATA_HEADER_TRUE_SIZE pf"
  have round: "MAX_ALIGNMENT pf dvd a \<and> n \<le> a \<and> a < n + MAX_ALIGNMENT pf"
    unfolding a_def using take_alloc_size_round [OF pow, of n] by simp
  have qp: "p < q" unfolding q_def using hd_pos by simp
  have fresh: "split \<Longrightarrow> q \<notin> set fs \<union> set as \<and> q \<noteq> 0"
  proof -
    assume s: split
    then have "a + ?H + 8 \<le> spans h p - ?H"
      by (simp add: split_def inv MIN_BUFFER_BLOCK_def)
    then have "q < p + spans h p" unfolding q_def using inv(2) by linarith
    with qp layout have "q \<notin> set fs \<union> set as" by blast
    moreover have "q \<noteq> 0" using qp by simp
    ultimately show ?thesis by simp
  qed
  have split_iff: "split \<longleftrightarrow> a + ?H + MIN_BUFFER_BLOCK \<le> sizes h p"
    by (simp add: split_def)
  from take_buffer_lists [OF fl al dj p a_def [THEN meta_eq_to_obj_eq]
         q_def [THEN meta_eq_to_obj_eq] split_iff fresh]
  obtain b' h' where
    r: "MPIR_Bsend_take_buffer pf b h p n = (b', h')"
    and f: "dlist h' (avail b')
              (if split then map (\<lambda>x. if x = p then q else x) fs else remove1 p fs)"
    and ac: "dlist h' (active b') (p # as)"
    and t: "spans h' = (if split then (spans h)(q := spans h p - a - ?H, p := q - p)
                        else spans h)"
    and s: "sizes h' = (if split then (sizes h)(q := spans h p - a - ?H - ?H, p := q - p - ?H)
                        else sizes h)"
    by blast
  have sp: "split \<Longrightarrow>
       spans h' q = spans h p - (?H + a) \<and> spans h' p = ?H + a
       \<and> sizes h' q = spans h' q - ?H \<and> sizes h' p = spans h' p - ?H \<and> 8 \<le> sizes h' q
       \<and> (\<forall>x. x \<noteq> p \<and> x \<noteq> q \<longrightarrow> spans h' x = spans h x \<and> sizes h' x = sizes h x)"
  proof -
    assume sp: split
    then have le: "a + ?H + 8 \<le> spans h p - ?H"
      by (simp add: split_def inv MIN_BUFFER_BLOCK_def)
    have ne: "q \<noteq> p" using qp by simp
    have d: "q - p = ?H + a" unfolding q_def by simp
    have tq: "spans h' q = spans h p - a - ?H" and tp: "spans h' p = q - p"
      and sq: "sizes h' q = spans h p - a - ?H - ?H" and sp': "sizes h' p = q - p - ?H"
      using sp ne by (simp_all add: t s)
    have oth: "\<forall>x. x \<noteq> p \<and> x \<noteq> q \<longrightarrow> spans h' x = spans h x \<and> sizes h' x = sizes h x"
      using sp by (simp add: t s)
    have "8 \<le> spans h p - a - ?H - ?H" using le by linarith
    then show ?thesis
      using oth unfolding tq tp sq sp' d by (simp add: diff_diff_left add.commute)
  qed
  have nsp: "\<not> split \<Longrightarrow>
       dlist h' (avail b') (remove1 p fs) \<and> spans h' = spans h \<and> sizes h' = sizes h"
    using f t s by simp
  have spl: "split \<Longrightarrow> dlist h' (avail b') (map (\<lambda>x. if x = p then q else x) fs)"
    using f by simp
  show ?thesis
    using round r ac sp spl nsp by blast
qed

lemma heap_attached_fields [simp]:
  "nexts heap_attached 4096 = 0" "prevs heap_attached 4096 = 0"
  "spans heap_attached 4096 = 1024" "sizes heap_attached 4096 = 960"
  by (simp_all add: nexts_def prevs_def spans_def sizes_def heap_attached_def)

lemma heap_attached_lists:
  "dlist heap_attached (avail arena0) [4096]" "dlist heap_attached (active arena0) []"
  by (simp_all add: dlist_def arena0_def)

lemma scenario_alloc:
  "take_alloc_size scenario_platform 400 = 400" "take_alloc_size scenario_platform 950 = 960"
proof -
  have m: "MAX_ALIGNMENT scenario_platform = 2 ^ 4" by simp
  show "take_alloc_size scenario_platform 400 = 400"
    "take_alloc_size scenario_platform 950 = 960"
    by (simp_all add: take_alloc_size_mod [OF m])
qed

text \<open>On the fresh arena of 1024 bytes: a request of 400 bytes splits the block, and the
  new free block at 4560 has the span 560; a request of 950 bytes, rounded to 960, takes
  the block whole.\<close>

theorem take_buffer_split_or_whole_witness:
  "dlist heap_attached (avail arena0) [4096] \<and> dlist heap_attached (active arena0) []
   \<and> sizes heap_attached 4096 = spans heap_attached 4096 - 64
   \<and> take_alloc_size scenario_platform 400 = 400
   \<and> (\<exists>b' h'. MPIR_Bsend_take_buffer scenario_platform arena0 heap_attached 4096 400 = (b', h')
         \<and> dlist h' (active b') [4096] \<and> dlist h' (avail b') [4560]
         \<and> spans h' 4560 = 560 \<and> spans h' 4096 = 464 \<and> sizes h' 4560 = 496
         \<and> sizes h' 4096 = 400)
   \<and> take_alloc_size scenario_platform 950 = 960
   \<and> (\<exists>b' h'. MPIR_Bsend_take_buffer scenario_platform arena0 heap_attached 4096 950 = (b', h')
         \<and> dlist h' (active b') [4096] \<and> dlist h' (avail b') []
         \<and> spans h' 4096 = 1024 \<and> sizes h' 4096 = 960)"
proof -
  have pre: "set [4096 :: nat] \<inter> set [] = {}" "(4096 :: nat) \<in> set [4096]"
    "sizes heap_attached 4096 = spans heap_attached 4096 - BSENDDATA_HEADER_TRUE_SIZE scenario_platform"
    "BSENDDATA_HEADER_TRUE_SIZE scenario_platform \<le> spans heap_attached 4096"
    "0 < BSENDDATA_HEADER_TRUE_SIZE scenario_platform"
    "MAX_ALIGNMENT scenario_platform = 2 ^ 4"
    "\<forall>x \<in> set [4096 :: nat] \<union> set []. \<not> (4096 < x \<and> x < 4096 + spans heap_attached 4096)"
    by simp_all
  note w = take_buffer_split_or_whole [OF heap_attached_lists pre]
  from w [of 400] w [of 950] show ?thesis
    using heap_attached_lists
    by (fastforce simp: scenario_alloc MIN_BUFFER_BLOCK_def)
qed

subsection \<open>Spans and payload capacities\<close>










end
